theory Spec2Isabelle
  imports Main
begin

section \<open>The store: nodes and tree objects addressed by number\<close>

text \<open>
  The code is a pointer graph: every \<open>Node\<close> holds raw back pointers \<open>root\<close> (the owning
  \<open>btree\<close>) and \<open>parent\<close>, and a vector of owning child pointers. The model keeps the
  graph: a store holds all \<open>Node\<close> objects and all \<open>btree\<close> objects, an address is an index
  into the store, the null pointer is \<open>None\<close>, and \<open>std::make_shared<Node>\<close> appends a new
  object. Memory is never reused and never runs out.

  Every access the C++ leaves undefined is an error value: reading a vector outside its
  size (\<open>OutOfRange\<close>), calling through a null pointer (\<open>NullPointer\<close>), following an
  address that holds no object (\<open>Dangling\<close>). Recursion and loops over pointers take
  fuel; \<open>OutOfFuel\<close> stands for a call that has not returned yet.
\<close>

type_synonym addr = nat

text \<open>
  Sizes and indices are natural numbers; where the code computes in a fixed-width type the
  wrap-around is written out. \<open>size_t\<close> has 64 bits, \<open>unsigned\<close> and \<open>int\<close> have 32.
  \<open>wrap_size_t\<close> is the result of an addition in \<open>size_t\<close>, \<open>to_unsigned\<close> is
  \<open>static_cast<unsigned>\<close> (and \<open>++i\<close> on an \<open>unsigned\<close> counter), and \<open>int_index\<close> is the
  index that \<open>v[offset]\<close> reads when a difference of vector iterators was stored in
  \<open>int offset\<close>: the low 32 bits, sign-extended, converted back to \<open>size_t\<close>.
\<close>

definition wrap_size_t :: "nat \<Rightarrow> nat" where
  "wrap_size_t n = n mod 2 ^ 64"

definition to_unsigned :: "nat \<Rightarrow> nat" where
  "to_unsigned n = n mod 2 ^ 32"

definition int_index :: "nat \<Rightarrow> nat" where
  "int_index n = (if n mod 2 ^ 32 < 2 ^ 31 then n mod 2 ^ 32 else 2 ^ 64 - 2 ^ 32 + n mod 2 ^ 32)"

datatype error = OutOfRange | NullPointer | Dangling | OutOfFuel

record 'a Node =
  root :: addr
  parent :: "addr option"
  children :: "addr option list"
  maxSize :: nat
  val :: "'a list"

record 'a store =
  nodes :: "'a Node list"
  btrees :: "addr option list"

definition thenE :: "error + 'b \<Rightarrow> ('b \<Rightarrow> error + 'c) \<Rightarrow> error + 'c" where
  "thenE m f = (case m of Inl e \<Rightarrow> Inl e | Inr x \<Rightarrow> f x)"

definition node :: "'a store \<Rightarrow> addr \<Rightarrow> error + 'a Node" where
  "node h a = (if a < length (nodes h) then Inr (nodes h ! a) else Inl Dangling)"

definition at :: "'b list \<Rightarrow> nat \<Rightarrow> error + 'b" where
  "at v i = (if i < length v then Inr (v ! i) else Inl OutOfRange)"

definition rootNode :: "'a store \<Rightarrow> addr \<Rightarrow> error + addr" where
  "rootNode h b =
     (if b < length (btrees h)
      then (case btrees h ! b of None \<Rightarrow> Inl NullPointer | Some r \<Rightarrow> Inr r)
      else Inl Dangling)"

text \<open>
  \<open>std::lower_bound\<close> on a sorted vector returns the first position whose element is not
  less than the value; the model is that position, counted from the start of the vector.
\<close>

definition lower_bound :: "'a::linorder list \<Rightarrow> 'a \<Rightarrow> nat" where
  "lower_bound v e = length (takeWhile (\<lambda>x. x < e) v)"

text \<open>\<open>val.insert(itPos, elem)\<close>: the element goes in front of position \<open>i\<close>.\<close>

definition vec_insert :: "'a list \<Rightarrow> nat \<Rightarrow> 'a \<Rightarrow> 'a list" where
  "vec_insert v i e = take i v @ e # drop i v"

section \<open>Positions\<close>

text \<open>
  A \<open>std::vector<T>::iterator\<close> is a raw pointer into the element buffer of a vector, and
  two of them are equal when the pointers are. A vector that holds no element has no
  buffer (no vector of the program ever loses an element): its \<open>begin()\<close> and \<open>end()\<close> are
  the null pointer, the same value for every such vector (\<open>VNull\<close>). A pointer into a
  buffer is modelled by the node whose \<open>val\<close> owns the buffer and the offset from
  \<open>val.begin()\<close> (\<open>VIt\<close>). This assumes that the buffers of two nodes are blocks of memory
  that neither overlap nor touch, so that no pointer into one buffer, its one-past-the-end
  pointer included, equals a pointer into another; and it leaves out that a buffer moves
  when the vector grows. \<open>vit v this i\<close> is \<open>val.begin() + i\<close> for the buffer \<open>v\<close> of the
  node \<open>this\<close>.

  A \<open>btree_iterator\<close> is the pair of fields of the class; \<open>const_btree_iterator\<close> has the
  same two fields. \<open>position v this i\<close> is \<open>iterator(this, val.begin() + i)\<close>.
\<close>

datatype valIterator = VNull | VIt (vec: addr) (off: nat)

definition vit :: "'a list \<Rightarrow> addr \<Rightarrow> nat \<Rightarrow> valIterator" where
  "vit v this i = (if v = [] then VNull else VIt this i)"

record btree_iterator =
  ptr :: addr
  pos :: valIterator

record const_btree_iterator =
  cptr :: addr
  cpos :: valIterator

definition position :: "'a list \<Rightarrow> addr \<Rightarrow> nat \<Rightarrow> btree_iterator" where
  "position v this i = \<lparr>ptr = this, pos = vit v this i\<rparr>"

text \<open>The four \<open>operator==\<close> and the four \<open>operator!=\<close>: each compares \<open>pos\<close> only.\<close>

definition it_eq :: "btree_iterator \<Rightarrow> btree_iterator \<Rightarrow> bool" where
  "it_eq a other = (pos a = pos other)"

definition it_eq_const :: "btree_iterator \<Rightarrow> const_btree_iterator \<Rightarrow> bool" where
  "it_eq_const a other = (pos a = cpos other)"

definition cit_eq :: "const_btree_iterator \<Rightarrow> const_btree_iterator \<Rightarrow> bool" where
  "cit_eq a other = (cpos a = cpos other)"

definition cit_eq_mut :: "const_btree_iterator \<Rightarrow> btree_iterator \<Rightarrow> bool" where
  "cit_eq_mut a other = (cpos a = pos other)"

definition it_neq :: "btree_iterator \<Rightarrow> btree_iterator \<Rightarrow> bool" where
  "it_neq a other = (\<not> it_eq a other)"

definition it_neq_const :: "btree_iterator \<Rightarrow> const_btree_iterator \<Rightarrow> bool" where
  "it_neq_const a other = (\<not> it_eq_const a other)"

definition cit_neq :: "const_btree_iterator \<Rightarrow> const_btree_iterator \<Rightarrow> bool" where
  "cit_neq a other = (\<not> cit_eq a other)"

definition cit_neq_mut :: "const_btree_iterator \<Rightarrow> btree_iterator \<Rightarrow> bool" where
  "cit_neq_mut a other = (\<not> cit_eq_mut a other)"

text \<open>
  \<open>*pos\<close>, \<open>pos - begin\<close>, \<open>++pos\<close> and \<open>--pos\<close> on vector iterators. Reading through the
  null pointer, stepping it, and the difference of pointers into two buffers are
  out-of-range accesses.
\<close>

definition star :: "'a store \<Rightarrow> valIterator \<Rightarrow> error + 'a" where
  "star h p =
     (case p of
        VNull \<Rightarrow> Inl OutOfRange
      | VIt a i \<Rightarrow> thenE (node h a) (\<lambda>nd. at (val nd) i))"

definition vdiff :: "valIterator \<Rightarrow> valIterator \<Rightarrow> error + nat" where
  "vdiff p q =
     (case p of
        VNull \<Rightarrow> (case q of VNull \<Rightarrow> Inr 0 | VIt b j \<Rightarrow> Inl OutOfRange)
      | VIt a i \<Rightarrow>
          (case q of
             VNull \<Rightarrow> Inl OutOfRange
           | VIt b j \<Rightarrow> if a = b \<and> j \<le> i then Inr (i - j) else Inl OutOfRange))"

definition vsucc :: "valIterator \<Rightarrow> error + valIterator" where
  "vsucc p = (case p of VNull \<Rightarrow> Inl OutOfRange | VIt a i \<Rightarrow> Inr (VIt a (i + 1)))"

definition vpred :: "valIterator \<Rightarrow> error + valIterator" where
  "vpred p =
     (case p of
        VNull \<Rightarrow> Inl OutOfRange
      | VIt a i \<Rightarrow> if i = 0 then Inl OutOfRange else Inr (VIt a (i - 1)))"

section \<open>Node: insert, find, begin, end\<close>

definition make_Node :: "'a store \<Rightarrow> addr \<Rightarrow> addr option \<Rightarrow> nat \<Rightarrow> 'a store \<times> addr" where
  "make_Node h b n sz =
     (h\<lparr>nodes := nodes h @
          [\<lparr>root = b, parent = n, children = replicate (wrap_size_t (sz + 1)) None,
            maxSize = sz, val = []\<rparr>]\<rparr>,
      length (nodes h))"

definition set_val :: "'a store \<Rightarrow> addr \<Rightarrow> 'a list \<Rightarrow> 'a store" where
  "set_val h a v = h\<lparr>nodes := (nodes h)[a := (nodes h ! a)\<lparr>val := v\<rparr>]\<rparr>"

definition set_child :: "'a store \<Rightarrow> addr \<Rightarrow> nat \<Rightarrow> addr option \<Rightarrow> 'a store" where
  "set_child h a i c =
     h\<lparr>nodes := (nodes h)[a := (nodes h ! a)\<lparr>children := (children (nodes h ! a))[i := c]\<rparr>]\<rparr>"

fun nodeInsert ::
  "nat \<Rightarrow> 'a::linorder store \<Rightarrow> addr \<Rightarrow> 'a \<Rightarrow> error + ('a store \<times> btree_iterator \<times> bool)" where
  "nodeInsert 0 h this elem = Inl OutOfFuel"
| "nodeInsert (Suc n) h this elem =
     thenE (node h this) (\<lambda>nd.
       if val nd = [] then Inr (set_val h this [elem], position [elem] this 0, True)
       else
         let p = lower_bound (val nd) elem in
         if p \<noteq> length (val nd) \<and> val nd ! p = elem
         then Inr (h, position (val nd) this p, False)
         else if to_unsigned (length (val nd)) < maxSize nd
         then Inr (set_val h this (vec_insert (val nd) p elem),
                   position (vec_insert (val nd) p elem) this p, True)
         else thenE (at (children nd) p) (\<lambda>c.
           case c of
             Some c' \<Rightarrow> nodeInsert n h c' elem
           | None \<Rightarrow>
               (case make_Node h (root nd) (Some this) (maxSize nd) of
                  (h1, c') \<Rightarrow> nodeInsert n (set_child h1 this p (Some c')) c' elem)))"

fun nodeBegin :: "nat \<Rightarrow> 'a store \<Rightarrow> addr \<Rightarrow> error + btree_iterator" where
  "nodeBegin 0 h this = Inl OutOfFuel"
| "nodeBegin (Suc n) h this =
     thenE (node h this) (\<lambda>nd.
     thenE (at (children nd) 0) (\<lambda>c.
       case c of
         Some c' \<Rightarrow> nodeBegin n h c'
       | None \<Rightarrow> Inr (position (val nd) this 0)))"

fun nodeEnd :: "nat \<Rightarrow> 'a store \<Rightarrow> addr \<Rightarrow> error + btree_iterator" where
  "nodeEnd 0 h this = Inl OutOfFuel"
| "nodeEnd (Suc n) h this =
     thenE (node h this) (\<lambda>nd.
     thenE (at (children nd) (length (val nd))) (\<lambda>c.
       case c of
         Some c' \<Rightarrow> nodeEnd n h c'
       | None \<Rightarrow> Inr (position (val nd) this (length (val nd)))))"

definition btree_begin :: "nat \<Rightarrow> 'a store \<Rightarrow> addr \<Rightarrow> error + btree_iterator" where
  "btree_begin n h this = thenE (rootNode h this) (nodeBegin n h)"

definition btree_end :: "nat \<Rightarrow> 'a store \<Rightarrow> addr \<Rightarrow> error + btree_iterator" where
  "btree_end n h this = thenE (rootNode h this) (nodeEnd n h)"

text \<open>
  \<open>nodeFind\<close> compares \<open>*itPos\<close> with the element first; the read goes through \<open>at\<close>, so a
  search position equal to \<open>val.size()\<close> is an out-of-range read.
\<close>

fun nodeFind :: "nat \<Rightarrow> 'a::linorder store \<Rightarrow> addr \<Rightarrow> 'a \<Rightarrow> error + btree_iterator" where
  "nodeFind 0 h this elem = Inl OutOfFuel"
| "nodeFind (Suc n) h this elem =
     thenE (node h this) (\<lambda>nd.
       let p = lower_bound (val nd) elem in
       thenE (at (val nd) p) (\<lambda>x.
         if x = elem then Inr (position (val nd) this p)
         else thenE (at (children nd) p) (\<lambda>c.
           case c of
             Some c' \<Rightarrow> nodeFind n h c' elem
           | None \<Rightarrow> btree_end n h (root nd))))"

text \<open>
  The read-only members \<open>cNodeBegin\<close>, \<open>cNodeEnd\<close> and \<open>cNodeFind\<close> repeat the bodies of
  \<open>nodeBegin\<close>, \<open>nodeEnd\<close> and \<open>nodeFind\<close> with \<open>const_iterator\<close> for \<open>iterator\<close> (and \<open>cend\<close>
  for \<open>end\<close>); they are modelled by the mutable member with the result re-tagged.
\<close>

definition as_const :: "btree_iterator \<Rightarrow> const_btree_iterator" where
  "as_const it = \<lparr>cptr = ptr it, cpos = pos it\<rparr>"

definition as_mutable :: "const_btree_iterator \<Rightarrow> btree_iterator" where
  "as_mutable it = \<lparr>ptr = cptr it, pos = cpos it\<rparr>"

definition constE :: "error + btree_iterator \<Rightarrow> error + const_btree_iterator" where
  "constE r = thenE r (\<lambda>it. Inr (as_const it))"

definition cNodeBegin :: "nat \<Rightarrow> 'a store \<Rightarrow> addr \<Rightarrow> error + const_btree_iterator" where
  "cNodeBegin n h this = constE (nodeBegin n h this)"

definition cNodeEnd :: "nat \<Rightarrow> 'a store \<Rightarrow> addr \<Rightarrow> error + const_btree_iterator" where
  "cNodeEnd n h this = constE (nodeEnd n h this)"

definition cNodeFind ::
  "nat \<Rightarrow> 'a::linorder store \<Rightarrow> addr \<Rightarrow> 'a \<Rightarrow> error + const_btree_iterator" where
  "cNodeFind n h this elem = constE (nodeFind n h this elem)"

section \<open>btree: construction, insert, find, begin, end\<close>

definition btree_new :: "'a store \<Rightarrow> nat \<Rightarrow> 'a store \<times> addr" where
  "btree_new h maxNodeElems =
     (let this = length (btrees h) in
      case make_Node h this None maxNodeElems of
        (h1, r) \<Rightarrow> (h1\<lparr>btrees := btrees h1 @ [Some r]\<rparr>, this))"

definition btree_insert ::
  "nat \<Rightarrow> 'a::linorder store \<Rightarrow> addr \<Rightarrow> 'a \<Rightarrow> error + ('a store \<times> btree_iterator \<times> bool)" where
  "btree_insert n h this elem = thenE (rootNode h this) (\<lambda>r. nodeInsert n h r elem)"

definition btree_find ::
  "nat \<Rightarrow> 'a::linorder store \<Rightarrow> addr \<Rightarrow> 'a \<Rightarrow> error + btree_iterator" where
  "btree_find n h this elem = thenE (rootNode h this) (\<lambda>r. nodeFind n h r elem)"

definition btree_cfind ::
  "nat \<Rightarrow> 'a::linorder store \<Rightarrow> addr \<Rightarrow> 'a \<Rightarrow> error + const_btree_iterator" where
  "btree_cfind n h this elem = thenE (rootNode h this) (\<lambda>r. cNodeFind n h r elem)"

definition btree_cbegin :: "nat \<Rightarrow> 'a store \<Rightarrow> addr \<Rightarrow> error + const_btree_iterator" where
  "btree_cbegin n h this = thenE (rootNode h this) (cNodeBegin n h)"

definition btree_cend :: "nat \<Rightarrow> 'a store \<Rightarrow> addr \<Rightarrow> error + const_btree_iterator" where
  "btree_cend n h this = thenE (rootNode h this) (cNodeEnd n h)"

section \<open>Stepping a position\<close>

text \<open>The two inner loops of \<open>operator++\<close> and \<open>operator--\<close> that walk down.\<close>

fun leftmost :: "nat \<Rightarrow> 'a store \<Rightarrow> addr \<Rightarrow> error + addr" where
  "leftmost 0 h p = Inl OutOfFuel"
| "leftmost (Suc n) h p =
     thenE (node h p) (\<lambda>nd.
     thenE (at (children nd) 0) (\<lambda>c.
       case c of Some c' \<Rightarrow> leftmost n h c' | None \<Rightarrow> Inr p))"

fun rightmost :: "nat \<Rightarrow> 'a store \<Rightarrow> addr \<Rightarrow> error + addr" where
  "rightmost 0 h p = Inl OutOfFuel"
| "rightmost (Suc n) h p =
     thenE (node h p) (\<lambda>nd.
     thenE (at (children nd) (length (val nd))) (\<lambda>c.
       case c of Some c' \<Rightarrow> rightmost n h c' | None \<Rightarrow> Inr p))"

text \<open>
  The loop of \<open>operator++\<close> that walks up: while the position differs from \<open>root->end()\<close>,
  go to the parent and search its buffer for \<open>temp\<close>. \<open>ptr = ptr->parent\<close> at the root
  makes \<open>ptr\<close> null, and the next statement reads \<open>ptr->val\<close>.
\<close>

fun ascend_inc :: "nat \<Rightarrow> 'a::linorder store \<Rightarrow> 'a \<Rightarrow> btree_iterator \<Rightarrow> error + btree_iterator" where
  "ascend_inc 0 h temp it = Inl OutOfFuel"
| "ascend_inc (Suc n) h temp it =
     thenE (node h (ptr it)) (\<lambda>nd.
     thenE (btree_end n h (root nd)) (\<lambda>e.
       if it_neq it e then
         (case parent nd of
            None \<Rightarrow> Inl NullPointer
          | Some p \<Rightarrow>
              thenE (node h p) (\<lambda>pn.
                let it' = position (val pn) p (lower_bound (val pn) temp) in
                if pos it' \<noteq> vit (val pn) p (length (val pn)) then Inr it'
                else ascend_inc n h temp it'))
       else Inr it))"

definition incr :: "nat \<Rightarrow> 'a::linorder store \<Rightarrow> btree_iterator \<Rightarrow> error + btree_iterator" where
  "incr n h it =
     thenE (star h (pos it)) (\<lambda>temp.
     thenE (node h (ptr it)) (\<lambda>nd.
     thenE (vdiff (pos it) (vit (val nd) (ptr it) 0)) (\<lambda>d.
     thenE (at (children nd) (int_index (d + 1))) (\<lambda>c.
       case c of
         Some c' \<Rightarrow>
           thenE (leftmost n h c') (\<lambda>l.
           thenE (node h l) (\<lambda>ln. Inr (position (val ln) l 0)))
       | None \<Rightarrow>
           thenE (vsucc (pos it)) (\<lambda>q.
             let it' = it\<lparr>pos := q\<rparr> in
             if pos it' = vit (val nd) (ptr it) (length (val nd)) then ascend_inc n h temp it'
             else Inr it')))))"

fun ascend_dec :: "nat \<Rightarrow> 'a::linorder store \<Rightarrow> 'a \<Rightarrow> btree_iterator \<Rightarrow> error + btree_iterator" where
  "ascend_dec 0 h temp it = Inl OutOfFuel"
| "ascend_dec (Suc n) h temp it =
     thenE (node h (ptr it)) (\<lambda>nd.
     thenE (btree_begin n h (root nd)) (\<lambda>b.
       if it_neq it b then
         (case parent nd of
            None \<Rightarrow> Inl NullPointer
          | Some p \<Rightarrow>
              thenE (node h p) (\<lambda>pn.
                let it' = position (val pn) p (lower_bound (val pn) temp) in
                if pos it' \<noteq> vit (val pn) p 0
                then thenE (vpred (pos it')) (\<lambda>q. Inr (it'\<lparr>pos := q\<rparr>))
                else ascend_dec n h temp it'))
       else Inr it))"

definition decr :: "nat \<Rightarrow> 'a::linorder store \<Rightarrow> btree_iterator \<Rightarrow> error + btree_iterator" where
  "decr n h it =
     thenE (star h (pos it)) (\<lambda>temp.
     thenE (node h (ptr it)) (\<lambda>nd.
     thenE (vdiff (pos it) (vit (val nd) (ptr it) 0)) (\<lambda>d.
     thenE (at (children nd) (int_index d)) (\<lambda>c.
       case c of
         Some c' \<Rightarrow>
           thenE (rightmost n h c') (\<lambda>r.
           thenE (node h r) (\<lambda>rn.
           thenE (vpred (vit (val rn) r (length (val rn)))) (\<lambda>q. Inr \<lparr>ptr = r, pos = q\<rparr>)))
       | None \<Rightarrow>
           if pos it = vit (val nd) (ptr it) 0 then ascend_dec n h temp it
           else thenE (vpred (pos it)) (\<lambda>q. Inr (it\<lparr>pos := q\<rparr>))))))"

text \<open>
  The operators of \<open>const_btree_iterator\<close> repeat the bodies above with \<open>cend\<close> for \<open>end\<close>
  and \<open>cbegin\<close> for \<open>begin\<close>.
\<close>

definition cincr ::
  "nat \<Rightarrow> 'a::linorder store \<Rightarrow> const_btree_iterator \<Rightarrow> error + const_btree_iterator" where
  "cincr n h it = constE (incr n h (as_mutable it))"

definition cdecr ::
  "nat \<Rightarrow> 'a::linorder store \<Rightarrow> const_btree_iterator \<Rightarrow> error + const_btree_iterator" where
  "cdecr n h it = constE (decr n h (as_mutable it))"

section \<open>The stream output operator\<close>

text \<open>
  The output stream is the list of items written to it: an element, written by the
  element type's own \<open>operator<<\<close>, or a string literal.
\<close>

datatype 'a out = Elem 'a | Text string

fun dump_loop ::
  "nat \<Rightarrow> 'a::linorder store \<Rightarrow> addr \<Rightarrow> const_btree_iterator \<Rightarrow> 'a out list \<Rightarrow> error + 'a out list" where
  "dump_loop 0 h tree it os = Inl OutOfFuel"
| "dump_loop (Suc n) h tree it os =
     thenE (btree_cend n h tree) (\<lambda>e.
       if cit_neq it e then
         thenE (star h (cpos it)) (\<lambda>x.
         thenE (cincr n h it) (\<lambda>it'.
           dump_loop n h tree it' (os @ [Text '' '', Elem x])))
       else Inr os)"

definition dump :: "nat \<Rightarrow> 'a::linorder store \<Rightarrow> addr \<Rightarrow> 'a out list \<Rightarrow> error + 'a out list" where
  "dump n h tree os =
     thenE (btree_cbegin n h tree) (\<lambda>it.
     thenE (btree_cend n h tree) (\<lambda>e.
     thenE (if cit_neq it e then thenE (star h (cpos it)) (\<lambda>x. Inr (os @ [Elem x])) else Inr os)
       (\<lambda>os1. dump_loop n h tree it os1)))"

section \<open>Copying\<close>



definition set_root :: "'a store \<Rightarrow> addr \<Rightarrow> addr \<Rightarrow> 'a store" where
  "set_root h a b = h\<lparr>nodes := (nodes h)[a := (nodes h ! a)\<lparr>root := b\<rparr>]\<rparr>"

definition set_parent :: "'a store \<Rightarrow> addr \<Rightarrow> addr option \<Rightarrow> 'a store" where
  "set_parent h a n = h\<lparr>nodes := (nodes h)[a := (nodes h ! a)\<lparr>parent := n\<rparr>]\<rparr>"



text \<open>
  The copy constructor builds a new \<open>btree\<close> object; the move assignment and the copy
  assignment work on an existing one. \<open>rootNode.reset()\<close> drops the pointer; the nodes it
  owned stay in the store, out of reach.
\<close>

definition set_rootNode :: "'a store \<Rightarrow> addr \<Rightarrow> addr option \<Rightarrow> 'a store" where
  "set_rootNode h b r = h\<lparr>btrees := (btrees h)[b := r]\<rparr>"




section \<open>Client loops\<close>

text \<open>
  The loop \<open>for (it = t.begin(); it != t.end(); ++it) out.push_back(*it)\<close>: the in-order
  traversal by stepping forward from begin to end.
\<close>

fun collect ::
  "nat \<Rightarrow> 'a::linorder store \<Rightarrow> addr \<Rightarrow> btree_iterator \<Rightarrow> 'a list \<Rightarrow> error + 'a list" where
  "collect 0 h tree it out = Inl OutOfFuel"
| "collect (Suc n) h tree it out =
     thenE (btree_end n h tree) (\<lambda>e.
       if it_neq it e then
         thenE (star h (pos it)) (\<lambda>x.
         thenE (incr n h it) (\<lambda>it'. collect n h tree it' (out @ [x])))
       else Inr out)"

definition traverse :: "nat \<Rightarrow> 'a::linorder store \<Rightarrow> addr \<Rightarrow> error + 'a list" where
  "traverse n h tree = thenE (btree_begin n h tree) (\<lambda>it. collect n h tree it [])"

text \<open>A sequence of \<open>insert\<close> calls on one tree.\<close>

fun inserts :: "nat \<Rightarrow> 'a::linorder store \<Rightarrow> addr \<Rightarrow> 'a list \<Rightarrow> error + 'a store" where
  "inserts n h tree [] = Inr h"
| "inserts n h tree (x # xs) =
     thenE (btree_insert n h tree x) (\<lambda>(h', it, b). inserts n h' tree xs)"

definition empty_store :: "'a store" where
  "empty_store = \<lparr>nodes = [], btrees = []\<rparr>"

text \<open>A tree constructed in the empty store with the given capacity, then filled.\<close>

definition build :: "nat \<Rightarrow> nat \<Rightarrow> 'a::linorder list \<Rightarrow> error + ('a store \<times> addr)" where
  "build n cap xs =
     (case btree_new empty_store cap of
        (h, t) \<Rightarrow> thenE (inserts n h t xs) (\<lambda>h'. Inr (h', t)))"


section \<open>Reasoning about the store\<close>

text \<open>
  A call returns \<open>y\<close> when every large enough amount of fuel gives \<open>y\<close>.
\<close>

definition returns :: "(nat \<Rightarrow> error + 'b) \<Rightarrow> 'b \<Rightarrow> bool" where
  "returns f y \<longleftrightarrow> (\<exists>N. \<forall>n\<ge>N. f n = Inr y)"

text \<open>
  The shape of a tree in the store, as a value: the address of each node, its buffer and
  its child slots (\<open>E\<close> for a null slot).
\<close>

datatype 'a atree = E | AT addr "'a list" "'a atree list"

text \<open>
  The position at index \<open>i\<close> of a node that has a buffer, and the counted loop whose
  counter does not wrap.
\<close>

definition iterator :: "addr \<Rightarrow> nat \<Rightarrow> btree_iterator" where
  "iterator this i = \<lparr>ptr = this, pos = VIt this i\<rparr>"


lemma size_nth_less [termination_simp]:
  "i < length xs \<Longrightarrow> f (xs ! i) < Suc (n + size_list f xs)"
proof -
  assume "i < length xs"
  then have "xs ! i \<in> set xs" by simp
  then have "f (xs ! i) \<le> size_list f xs"
    by (rule size_list_estimation') simp
  then show ?thesis by simp
qed

fun addr_of :: "'a atree \<Rightarrow> addr option" where
  "addr_of E = None"
| "addr_of (AT a vs cs) = Some a"

fun taddr :: "'a atree \<Rightarrow> addr" where
  "taddr E = 0"
| "taddr (AT a vs cs) = a"

fun vals :: "'a atree \<Rightarrow> 'a list" where
  "vals E = []"
| "vals (AT a vs cs) = vs"

fun interleave :: "'b list list \<Rightarrow> 'b list \<Rightarrow> 'b list" where
  "interleave [] vs = vs"
| "interleave (c # cs) [] = c @ concat cs"
| "interleave (c # cs) (v # vs) = c @ v # interleave cs vs"

fun inorder :: "'a atree \<Rightarrow> 'a list" where
  "inorder E = []"
| "inorder (AT a vs cs) = interleave (map inorder cs) vs"

fun aset :: "'a atree \<Rightarrow> addr set" where
  "aset E = {}"
| "aset (AT a vs cs) = insert a (\<Union>c\<in>set cs. aset c)"

fun adistinct :: "'a atree \<Rightarrow> bool" where
  "adistinct E = True"
| "adistinct (AT a vs cs) =
     (a \<notin> (\<Union>c\<in>set cs. aset c) \<and>
      (\<forall>i<length cs. \<forall>j<length cs. i \<noteq> j \<longrightarrow> aset (cs ! i) \<inter> aset (cs ! j) = {}) \<and>
      (\<forall>c\<in>set cs. adistinct c))"

fun poss :: "'a atree \<Rightarrow> btree_iterator list" where
  "poss E = []"
| "poss (AT a vs cs) = interleave (map poss cs) (map (iterator a) [0..<length vs])"

fun end_pos :: "'a atree \<Rightarrow> btree_iterator" where
  "end_pos E = iterator 0 0"
| "end_pos (AT a vs cs) =
     (if length vs < length cs \<and> cs ! length vs \<noteq> E then end_pos (cs ! length vs)
      else iterator a (length vs))"

fun hrep :: "'a store \<Rightarrow> addr \<Rightarrow> nat \<Rightarrow> addr option \<Rightarrow> 'a atree \<Rightarrow> bool" where
  "hrep h r m p E = True"
| "hrep h r m p (AT a vs cs) =
     (a < length (nodes h) \<and>
      nodes h ! a = \<lparr>root = r, parent = p, children = map addr_of cs, maxSize = m, val = vs\<rparr> \<and>
      (\<forall>c\<in>set cs. hrep h r m (Some a) c))"

text \<open>
  The fill policy (\<open>shape\<close>) and the search-tree order (\<open>bst\<close>), the latter in terms of the
  search the code performs: every element below child slot \<open>i\<close> has search point \<open>i\<close>.
\<close>

fun shape :: "nat \<Rightarrow> 'a atree \<Rightarrow> bool" where
  "shape m E = True"
| "shape m (AT a vs cs) =
     (length cs = Suc m \<and> length vs \<le> m \<and>
      (\<forall>c\<in>set cs. shape m c \<and> (c \<noteq> E \<longrightarrow> length vs = m \<and> vals c \<noteq> [])))"

fun bst :: "'a::linorder atree \<Rightarrow> bool" where
  "bst E = True"
| "bst (AT a vs cs) =
     (sorted_wrt (<) vs \<and>
      (\<forall>i<length cs. \<forall>e\<in>set (inorder (cs ! i)). lower_bound vs e = i \<and> e \<notin> set vs) \<and>
      (\<forall>c\<in>set cs. bst c))"

text \<open>What \<open>nodeInsert\<close> does to the shape; \<open>f\<close> is the address a new node would get.\<close>

definition hit :: "'a::linorder list \<Rightarrow> 'a \<Rightarrow> bool" where
  "hit vs e \<longleftrightarrow> lower_bound vs e \<noteq> length vs \<and> vs ! lower_bound vs e = e"

fun ains :: "nat \<Rightarrow> addr \<Rightarrow> 'a::linorder \<Rightarrow> 'a atree \<Rightarrow> 'a atree" where
  "ains m f e E = AT f [e] (replicate (Suc m) E)"
| "ains m f e (AT a vs cs) =
     (if vs = [] then AT a [e] cs
      else if hit vs e then AT a vs cs
      else if length vs < m then AT a (vec_insert vs (lower_bound vs e) e) cs
      else if lower_bound vs e < length cs
           then AT a vs (cs[lower_bound vs e := ains m f e (cs ! lower_bound vs e)])
           else AT a vs cs)"

text \<open>The position of an element in a tree, found by the search that \<open>nodeInsert\<close> performs.\<close>

fun locate :: "'a::linorder \<Rightarrow> 'a atree \<Rightarrow> btree_iterator" where
  "locate e E = iterator 0 0"
| "locate e (AT a vs cs) =
     (if hit vs e then iterator a (lower_bound vs e)
      else if lower_bound vs e < length cs then locate e (cs ! lower_bound vs e)
      else iterator 0 0)"

text \<open>What one call of \<open>nodeInsert\<close> on the node of \<open>t\<close> leaves behind.\<close>

definition ins_post ::
  "'a::linorder store \<Rightarrow> addr \<Rightarrow> nat \<Rightarrow> addr option \<Rightarrow> 'a atree \<Rightarrow> 'a \<Rightarrow> 'a store \<Rightarrow> bool" where
  "ins_post h r m p t e h' \<longleftrightarrow>
     hrep h' r m p (ains m (length (nodes h)) e t) \<and>
     length (nodes h) \<le> length (nodes h') \<and>
     (\<forall>x<length (nodes h). x \<notin> aset t \<longrightarrow> nodes h' ! x = nodes h ! x) \<and>
     btrees h' = btrees h \<and>
     (e \<in> set (inorder t) \<longrightarrow> h' = h)"

text \<open>A well-formed tree: the object \<open>b\<close> owns a root whose graph has shape \<open>t\<close>.\<close>

definition tree_inv :: "'a::linorder store \<Rightarrow> addr \<Rightarrow> nat \<Rightarrow> 'a atree \<Rightarrow> bool" where
  "tree_inv h b m t \<longleftrightarrow>
     b < length (btrees h) \<and> btrees h ! b = Some (taddr t) \<and> t \<noteq> E \<and>
     hrep h b m None t \<and> shape m t \<and> bst t \<and> adistinct t \<and> 1 \<le> m \<and> m < 2 ^ 31"

text \<open>
  The node where \<open>nodeBegin\<close> stops, the buffer of the node where \<open>nodeEnd\<close> stops, and a
  list of positions each of which steps to the next one, the last one to \<open>k\<close>.
\<close>

fun first_node :: "'a atree \<Rightarrow> addr" where
  "first_node E = 0"
| "first_node (AT a vs cs) =
     (if 0 < length cs \<and> cs ! 0 \<noteq> E then first_node (cs ! 0) else a)"

fun end_vals :: "'a atree \<Rightarrow> 'a list" where
  "end_vals E = []"
| "end_vals (AT a vs cs) =
     (if length vs < length cs \<and> cs ! length vs \<noteq> E then end_vals (cs ! length vs) else vs)"

fun chain :: "('p \<Rightarrow> 'p \<Rightarrow> bool) \<Rightarrow> 'p list \<Rightarrow> 'p \<Rightarrow> bool" where
  "chain R [] k = True"
| "chain R (x # xs) k = (R x (hd (xs @ [k])) \<and> chain R xs k)"








fun ncount :: "'a atree \<Rightarrow> nat" where
  "ncount E = 0"
| "ncount (AT a vs cs) = Suc (sum_list (map ncount cs))"

fun relabel :: "addr \<Rightarrow> 'a atree \<Rightarrow> 'a atree"
  and relabels :: "addr \<Rightarrow> 'a atree list \<Rightarrow> 'a atree list" where
  "relabel f E = E"
| "relabel f (AT a vs cs) = AT f vs (relabels (Suc f) cs)"
| "relabels f [] = []"
| "relabels f (c # cs) = relabel f c # relabels (f + ncount c) cs"

text \<open>The nodes a tree object reaches through its root and the child pointers.\<close>

inductive_set owned :: "'a store \<Rightarrow> addr \<Rightarrow> addr set" for h :: "'a store" and b :: addr where
  root: "b < length (btrees h) \<Longrightarrow> btrees h ! b = Some r \<Longrightarrow> r \<in> owned h b"
| child: "x \<in> owned h b \<Longrightarrow> x < length (nodes h) \<Longrightarrow>
          Some c \<in> set (children (nodes h ! x)) \<Longrightarrow> c \<in> owned h b"








section \<open>Basic facts\<close>

lemma thenE_simps [simp]: "thenE (Inl e) f = Inl e" "thenE (Inr x) f = f x"
  by (simp_all add: thenE_def)

text \<open>Below the bounds of the fixed-width types nothing wraps.\<close>

lemma to_unsigned_id: "n < 2 ^ 32 \<Longrightarrow> to_unsigned n = n"
  by (simp add: to_unsigned_def)

lemma wrap_size_t_id: "n < 2 ^ 64 \<Longrightarrow> wrap_size_t n = n"
  by (simp add: wrap_size_t_def)

lemma int_index_id: "n < 2 ^ 31 \<Longrightarrow> int_index n = n"
  by (simp add: int_index_def)

lemma cap_slots:
  "m < 2 ^ 31 \<Longrightarrow> wrap_size_t (m + 1) = Suc m"
  "m < 2 ^ 31 \<Longrightarrow> wrap_size_t (Suc m) = Suc m"
  by (simp_all add: wrap_size_t_def)

lemma cap_unsigned: "m < 2 ^ 31 \<Longrightarrow> n \<le> m \<Longrightarrow> to_unsigned n = n"
  by (simp add: to_unsigned_def)

lemma cap_int_index: "m < 2 ^ 31 \<Longrightarrow> n \<le> m \<Longrightarrow> int_index n = n"
  by (simp add: int_index_def)

text \<open>Positions of a node that has a buffer.\<close>

lemma vit_simps [simp]: "vit [] a i = VNull" "v \<noteq> [] \<Longrightarrow> vit v a i = VIt a i"
  by (simp_all add: vit_def)

lemma position_iterator [simp]: "v \<noteq> [] \<Longrightarrow> position v a i = iterator a i"
  by (simp add: position_def iterator_def)

lemma position_Nil: "position [] a i = \<lparr>ptr = a, pos = VNull\<rparr>"
  by (simp add: position_def)

lemma position_sel [simp]: "ptr (position v a i) = a" "pos (position v a i) = vit v a i"
  by (simp_all add: position_def)

lemma vit_search_end:
  "vit v a (lower_bound v e) \<noteq> vit v a (length v) \<longleftrightarrow> lower_bound v e \<noteq> length v"
  by (cases "v = []") (simp_all add: lower_bound_def)

lemma vec_insert_not_Nil [simp]: "vec_insert v i e \<noteq> []"
  by (simp add: vec_insert_def)



lemma returns_const [simp]: "returns (\<lambda>n. Inr x) y \<longleftrightarrow> x = y"
  by (auto simp: returns_def)

lemma returns_Suc: "returns (\<lambda>n. f (Suc n)) y \<Longrightarrow> returns f y"
  unfolding returns_def
proof (elim exE)
  fix N assume h: "\<forall>n\<ge>N. f (Suc n) = Inr y"
  have "\<forall>n\<ge>Suc N. f n = Inr y"
  proof (intro allI impI)
    fix n assume "Suc N \<le> n"
    then obtain k where "n = Suc k" "N \<le> k" by (cases n) auto
    with h show "f n = Inr y" by simp
  qed
  then show "\<exists>N. \<forall>n\<ge>N. f n = Inr y" ..
qed

lemma returns_thenE:
  assumes "returns m x" and "returns (\<lambda>n. g n x) y"
  shows "returns (\<lambda>n. thenE (m n) (g n)) y"
proof -
  from assms obtain N1 N2 where 1: "\<forall>n\<ge>N1. m n = Inr x" and 2: "\<forall>n\<ge>N2. g n x = Inr y"
    by (auto simp: returns_def)
  have "\<forall>n\<ge>max N1 N2. thenE (m n) (g n) = Inr y"
    using 1 2 by simp
  then show ?thesis unfolding returns_def ..
qed


section \<open>lower bound\<close>

lemma lower_bound_Nil [simp]: "lower_bound [] e = 0"
  by (simp add: lower_bound_def)

lemma lower_bound_Cons: "lower_bound (v # vs) e = (if v < e then Suc (lower_bound vs e) else 0)"
  by (simp add: lower_bound_def)

lemma lower_bound_le: "lower_bound vs e \<le> length vs"
  by (simp add: lower_bound_def length_takeWhile_le)

lemma lower_bound_mem:
  "sorted_wrt (<) vs \<Longrightarrow> e \<in> set vs \<Longrightarrow> lower_bound vs e < length vs \<and> vs ! lower_bound vs e = e"
  by (induction vs) (auto simp: lower_bound_Cons)

lemma lower_bound_found:
  "lower_bound vs e < length vs \<Longrightarrow> vs ! lower_bound vs e = e \<Longrightarrow> e \<in> set vs"
  by (metis nth_mem)

lemma lower_bound_last:
  "sorted_wrt (<) vs \<Longrightarrow> vs \<noteq> [] \<Longrightarrow> lower_bound vs (last vs) = length vs - 1"
  by (induction vs) (auto simp: lower_bound_Cons)

lemma sorted_vec_insert:
  "sorted_wrt (<) vs \<Longrightarrow> e \<notin> set vs \<Longrightarrow> sorted_wrt (<) (vec_insert vs (lower_bound vs e) e)"
proof (induction vs)
  case Nil
  then show ?case by (simp add: vec_insert_def)
next
  case (Cons v vs)
  then show ?case
    by (auto simp: vec_insert_def lower_bound_Cons dest: in_set_takeD in_set_dropD)
qed

lemma set_vec_insert: "i \<le> length vs \<Longrightarrow> set (vec_insert vs i e) = insert e (set vs)"
proof -
  assume "i \<le> length vs"
  have "set (take i vs) \<union> set (drop i vs) = set vs"
    by (metis append_take_drop_id set_append)
  then show ?thesis by (auto simp: vec_insert_def)
qed

lemma length_vec_insert [simp]: "i \<le> length vs \<Longrightarrow> length (vec_insert vs i e) = Suc (length vs)"
  by (simp add: vec_insert_def)

lemma nth_vec_insert [simp]: "i \<le> length vs \<Longrightarrow> vec_insert vs i e ! i = e"
  by (simp add: vec_insert_def nth_append)


section \<open>The shape after an insertion\<close>


lemma set_interleave: "set (interleave cs vs) = (\<Union>c\<in>set cs. set c) \<union> set vs"
  by (induction cs vs rule: interleave.induct) auto

lemma set_inorder_AT: "set (inorder (AT a vs cs)) = set vs \<union> (\<Union>c\<in>set cs. set (inorder c))"
  by (simp add: set_interleave Un_commute)

lemma UN_list_update:
  "p < length cs \<Longrightarrow> (\<Union>c\<in>set (cs[p := c']). F c) = F c' \<union> (\<Union>i\<in>{..<length cs} - {p}. F (cs ! i))"
  by (auto simp: set_conv_nth nth_list_update split: if_splits) 

lemma UN_list_nth: "(\<Union>c\<in>set cs. F c) = (\<Union>i\<in>{..<length cs}. F (cs ! i))"
  by (auto simp: set_conv_nth)

lemma sorted_interleave:
  "sorted_wrt (<) vs \<Longrightarrow> \<forall>c\<in>set cs. sorted_wrt (<) c \<Longrightarrow>
   \<forall>i<length cs. \<forall>e\<in>set (cs ! i). lower_bound vs e = i \<and> e \<notin> set vs \<Longrightarrow>
   sorted_wrt (<) (interleave cs (vs :: 'a::linorder list))"
proof (induction cs vs rule: interleave.induct)
  case (1 vs)
  then show ?case by simp
next
  case (2 c cs)
  have "concat cs = []"
  proof -
    have "\<forall>d\<in>set cs. d = []"
    proof
      fix d assume "d \<in> set cs"
      then obtain i where i: "i < length cs" "cs ! i = d" by (auto simp: in_set_conv_nth)
      show "d = []"
      proof (rule ccontr)
        assume "d \<noteq> []"
        then obtain e where "e \<in> set d" by (cases d) auto
        with 2(3) i have "lower_bound [] e = Suc i"
          by (metis length_Cons nth_Cons_Suc Suc_less_eq)
        then show False by simp
      qed
    qed
    then show ?thesis by simp
  qed
  then have eq: "interleave (c # cs) [] = c" by simp
  show ?case unfolding eq using 2(2) by simp
next
  case (3 c cs v vs)
  have c: "\<forall>e\<in>set c. e < v"
  proof
    fix e assume "e \<in> set c"
    with 3(4) have "lower_bound (v # vs) e = 0 \<and> e \<notin> set (v # vs)" by force
    then show "e < v" by (auto simp: lower_bound_Cons split: if_splits)
  qed
  have t: "\<forall>i<length cs. \<forall>e\<in>set (cs ! i). v < e \<and> lower_bound vs e = i \<and> e \<notin> set vs"
  proof (intro allI impI ballI)
    fix i e assume "i < length cs" "e \<in> set (cs ! i)"
    with 3(4) have "lower_bound (v # vs) e = Suc i \<and> e \<notin> set (v # vs)" by force
    then show "v < e \<and> lower_bound vs e = i \<and> e \<notin> set vs"
      by (auto simp: lower_bound_Cons split: if_splits)
  qed
  have ih: "sorted_wrt (<) (interleave cs vs)"
    using 3 t by simp
  have gt: "\<forall>y\<in>set (interleave cs vs). v < y"
  proof
    fix y assume "y \<in> set (interleave cs vs)"
    then consider "y \<in> set vs" | d where "d \<in> set cs" "y \<in> set d"
      by (auto simp: set_interleave)
    then show "v < y"
    proof cases
      case 1
      with 3(2) show ?thesis by simp
    next
      case 2
      then obtain i where "i < length cs" "cs ! i = d" by (auto simp: in_set_conv_nth)
      with t 2 show ?thesis by blast
    qed
  qed
  show ?case using 3(3) c ih gt by (fastforce simp: sorted_wrt_append)
qed

lemma sorted_inorder: "bst t \<Longrightarrow> sorted_wrt (<) (inorder t)"
proof (induction t)
  case E
  then show ?case by simp
next
  case (AT a vs cs)
  show ?case
    unfolding inorder.simps
  proof (rule sorted_interleave)
    show "sorted_wrt (<) vs" using AT.prems by simp
    show "\<forall>c\<in>set (map inorder cs). sorted_wrt (<) c" using AT by auto
    show "\<forall>i<length (map inorder cs). \<forall>e\<in>set (map inorder cs ! i). lower_bound vs e = i \<and> e \<notin> set vs"
      using AT.prems by simp
  qed
qed

lemma hit_mem: "hit vs e \<Longrightarrow> e \<in> set vs"
  unfolding hit_def using lower_bound_le [of vs e] by (metis nth_mem le_neq_implies_less)

lemma hit_iff: "sorted_wrt (<) vs \<Longrightarrow> hit vs e \<longleftrightarrow> e \<in> set vs"
  using hit_mem lower_bound_mem [of vs e] by (auto simp: hit_def)

lemma addr_of_ains: "t \<noteq> E \<Longrightarrow> addr_of (ains m f e t) = addr_of t"
  by (cases t) (auto simp: Let_def)

lemma vals_ains: "vals (ains m f e t) \<noteq> []"
  by (cases t) (auto simp: vec_insert_def)

lemma ains_not_E [simp]: "ains m f e t \<noteq> E"
  by (cases t) auto

lemma shape_children:
  "shape m (AT a vs cs) \<Longrightarrow> lower_bound vs e < length cs"
  using lower_bound_le [of vs e] by simp

lemma set_inorder_ains:
  "shape m t \<Longrightarrow> set (inorder (ains m f e t)) = insert e (set (inorder t))"
proof (induction t)
  case E
  then show ?case by (simp add: set_interleave)
next
  case (AT a vs cs)
  let ?p = "lower_bound vs e"
  have p: "?p < length cs" using AT.prems by (rule shape_children)
  consider (empty) "vs = []" | (found) "vs \<noteq> []" "hit vs e"
    | (room) "vs \<noteq> []" "\<not> hit vs e" "length vs < m"
    | (down) "vs \<noteq> []" "\<not> hit vs e" "\<not> length vs < m"
    by blast
  then show ?case
  proof cases
    case empty
    then show ?thesis by (simp add: set_interleave)
  next
    case found
    then have "e \<in> set vs" by (simp add: hit_mem)
    with found show ?thesis by (auto simp: set_interleave)
  next
    case room
    then show ?thesis using lower_bound_le [of vs e]
      by (auto simp: set_interleave set_vec_insert)
  next
    case down
    have "cs ! ?p \<in> set cs" using p by simp
    then have ih: "set (inorder (ains m f e (cs ! ?p))) = insert e (set (inorder (cs ! ?p)))"
      using AT by auto
    have "(\<Union>c\<in>set (cs[?p := ains m f e (cs ! ?p)]). set (inorder c))
            = insert e (\<Union>c\<in>set cs. set (inorder c))"
      using p ih by (auto simp: UN_list_update UN_list_nth [of _ cs])
    with down p show ?thesis
      by (simp add: set_inorder_AT del: inorder.simps)
  qed
qed



lemma nth_Cons_replicate [simp]: "i < Suc m \<Longrightarrow> (x # replicate m x) ! i = x"
  by (cases i) auto

lemma all_E_nth: "set cs \<subseteq> {E} \<Longrightarrow> i < length cs \<Longrightarrow> cs ! i = E"
  using nth_mem by fastforce

lemma all_E_inorder: "set cs \<subseteq> {E} \<Longrightarrow> i < length cs \<Longrightarrow> inorder (cs ! i) = []"
  by (simp add: all_E_nth)

lemma all_E_concat: "set cs \<subseteq> {E} \<Longrightarrow> concat (map inorder cs) = []"
  by auto



lemma shape_no_children:
  "shape m (AT a vs cs) \<Longrightarrow> length vs < m \<Longrightarrow> set cs \<subseteq> {E}"
  by auto

lemma shape_full: "shape m (AT a vs cs) \<Longrightarrow> \<not> length vs < m \<Longrightarrow> length vs = m"
  by auto

lemma shape_ains: "shape m t \<Longrightarrow> 1 \<le> m \<Longrightarrow> shape m (ains m f e t)"
proof (induction t)
  case E
  then show ?case by simp
next
  case (AT a vs cs)
  let ?p = "lower_bound vs e"
  have p: "?p < length cs" using AT.prems(1) by (rule shape_children)
  consider (empty) "vs = []" | (found) "vs \<noteq> []" "hit vs e"
    | (room) "vs \<noteq> []" "\<not> hit vs e" "length vs < m"
    | (down) "vs \<noteq> []" "\<not> hit vs e" "\<not> length vs < m"
    by blast
  then show ?case
  proof cases
    case empty
    with AT.prems show ?thesis by auto
  next
    case found
    with AT.prems show ?thesis by simp
  next
    case room
    with AT.prems show ?thesis using lower_bound_le [of vs e] by auto
  next
    case down
    let ?c = "ains m f e (cs ! ?p)"
    have "cs ! ?p \<in> set cs" using p by simp
    then have 1: "shape m ?c" using AT by auto
    have 2: "length vs = m" using AT.prems(1) down(3) by (rule shape_full)
    have "\<forall>c\<in>set (cs[?p := ?c]). shape m c \<and> (c \<noteq> E \<longrightarrow> length vs = m \<and> vals c \<noteq> [])"
    proof
      fix c assume "c \<in> set (cs[?p := ?c])"
      then have "c = ?c \<or> c \<in> set cs" using set_update_subset_insert [of cs ?p ?c] by auto
      then show "shape m c \<and> (c \<noteq> E \<longrightarrow> length vs = m \<and> vals c \<noteq> [])"
        using 1 2 AT.prems(1) vals_ains [of m f e "cs ! ?p"] by auto
    qed
    with down p AT.prems show ?thesis by simp
  qed
qed

lemma bst_leafI:
  "sorted_wrt (<) vs \<Longrightarrow> set cs \<subseteq> {E} \<Longrightarrow> bst (AT a vs cs)"
proof -
  assume s: "sorted_wrt (<) vs" and e: "set cs \<subseteq> {E}"
  have "\<forall>i<length cs. \<forall>x\<in>set (inorder (cs ! i)). lower_bound vs x = i \<and> x \<notin> set vs"
  proof (intro allI impI)
    fix i assume "i < length cs"
    with e have "inorder (cs ! i) = []" by (rule all_E_inorder)
    then show "\<forall>x\<in>set (inorder (cs ! i)). lower_bound vs x = i \<and> x \<notin> set vs" by simp
  qed
  moreover have "\<forall>c\<in>set cs. bst c" using e by auto
  ultimately show ?thesis using s unfolding bst.simps by blast
qed

lemma bst_ains: "bst t \<Longrightarrow> shape m t \<Longrightarrow> 1 \<le> m \<Longrightarrow> bst (ains m f e t)"
proof (induction t)
  case E
  have "ains m f e E = AT f [e] (replicate (Suc m) E)" by simp
  moreover have "bst (AT f [e] (replicate (Suc m) E))"
    by (rule bst_leafI) auto
  ultimately show ?case by (simp only:)
next
  case (AT a vs cs)
  let ?p = "lower_bound vs e"
  have p: "?p < length cs" using AT.prems(2) by (rule shape_children)
  have srt: "sorted_wrt (<) vs" using AT.prems(1) by simp
  consider (empty) "vs = []" | (found) "vs \<noteq> []" "hit vs e"
    | (room) "vs \<noteq> []" "\<not> hit vs e" "length vs < m"
    | (down) "vs \<noteq> []" "\<not> hit vs e" "\<not> length vs < m"
    by blast
  then show ?case
  proof cases
    case empty
    then have "length vs < m" using AT.prems(3) by simp
    then have e: "set cs \<subseteq> {E}" using AT.prems(2) shape_no_children by blast
    have "ains m f e (AT a vs cs) = AT a [e] cs" using empty by simp
    moreover have "bst (AT a [e] cs)" using e by (intro bst_leafI) simp_all
    ultimately show ?thesis by (simp only:)
  next
    case found
    then have "ains m f e (AT a vs cs) = AT a vs cs" by simp
    with AT.prems(1) show ?thesis by (simp only:)
  next
    case room
    then have e: "set cs \<subseteq> {E}" using AT.prems(2) shape_no_children by blast
    have "e \<notin> set vs" using room srt by (simp add: hit_iff)
    then have s: "sorted_wrt (<) (vec_insert vs ?p e)" using srt by (simp add: sorted_vec_insert)
    have "ains m f e (AT a vs cs) = AT a (vec_insert vs ?p e) cs" using room by simp
    moreover have "bst (AT a (vec_insert vs ?p e) cs)" using s e by (rule bst_leafI)
    ultimately show ?thesis by (simp only:)
  next
    case down
    let ?c = "ains m f e (cs ! ?p)"
    have mem: "cs ! ?p \<in> set cs" using p by simp
    have nin: "e \<notin> set vs" using down srt by (simp add: hit_iff)
    have old: "\<forall>i<length cs. \<forall>x\<in>set (inorder (cs ! i)). lower_bound vs x = i \<and> x \<notin> set vs"
      and oldb: "\<forall>c\<in>set cs. bst c"
      using AT.prems(1) unfolding bst.simps by blast+
    have shp: "shape m (cs ! ?p)" using AT.prems(2) mem by auto
    have 1: "bst ?c" using AT.IH [OF mem] oldb mem shp AT.prems(3) by blast
    have 2: "set (inorder ?c) = insert e (set (inorder (cs ! ?p)))"
      using shp by (rule set_inorder_ains)
    have 3: "\<forall>c\<in>set (cs[?p := ?c]). bst c"
    proof
      fix c assume "c \<in> set (cs[?p := ?c])"
      then have "c = ?c \<or> c \<in> set cs" using set_update_subset_insert [of cs ?p ?c] by auto
      then show "bst c" using 1 oldb by auto
    qed
    have 4: "\<forall>i<length (cs[?p := ?c]). \<forall>x\<in>set (inorder (cs[?p := ?c] ! i)).
               lower_bound vs x = i \<and> x \<notin> set vs"
    proof (intro allI impI ballI)
      fix i x assume "i < length (cs[?p := ?c])" and x: "x \<in> set (inorder (cs[?p := ?c] ! i))"
      then have i: "i < length cs" by simp
      show "lower_bound vs x = i \<and> x \<notin> set vs"
      proof (cases "i = ?p")
        case True
        with x p 2 have "x = e \<or> x \<in> set (inorder (cs ! ?p))" by simp
        then show ?thesis using True nin old p by blast
      next
        case False
        with x i have "x \<in> set (inorder (cs ! i))" by simp
        then show ?thesis using old i by blast
      qed
    qed
    have "ains m f e (AT a vs cs) = AT a vs (cs[?p := ?c])" using down p by simp
    moreover have "bst (AT a vs (cs[?p := ?c]))" unfolding bst.simps using srt 3 4 by blast
    ultimately show ?thesis by (simp only:)
  qed
qed

lemma aset_ains_E [simp]: "aset (ains m f e E) = {f}"
  by simp

lemma aset_ains_sub: "aset (ains m f e t) \<subseteq> insert f (aset t)"
proof (induction t)
  case E
  then show ?case by simp
next
  case (AT a vs cs)
  let ?p = "lower_bound vs e"
  show ?case
  proof (cases "?p < length cs")
    case True
    then have "cs ! ?p \<in> set cs" by simp
    then have ih: "aset (ains m f e (cs ! ?p)) \<subseteq> insert f (aset (cs ! ?p))" using AT by auto
    have "(\<Union>c\<in>set (cs[?p := ains m f e (cs ! ?p)]). aset c) \<subseteq> insert f (\<Union>c\<in>set cs. aset c)"
      using True ih by (auto simp: UN_list_update UN_list_nth [of _ cs])
    then show ?thesis by auto
  next
    case False
    then show ?thesis by auto
  qed
qed

lemma aset_ains_sup: "aset t \<subseteq> aset (ains m f e t)"
proof (induction t)
  case E
  then show ?case by simp
next
  case (AT a vs cs)
  let ?p = "lower_bound vs e"
  show ?case
  proof (cases "?p < length cs")
    case True
    then have "cs ! ?p \<in> set cs" by simp
    then have ih: "aset (cs ! ?p) \<subseteq> aset (ains m f e (cs ! ?p))" using AT by auto
    have "(\<Union>c\<in>set cs. aset c) \<subseteq> (\<Union>c\<in>set (cs[?p := ains m f e (cs ! ?p)]). aset c)"
      using True ih by (auto simp: UN_list_update UN_list_nth [of _ cs]) 
    then show ?thesis by auto
  next
    case False
    then show ?thesis by auto
  qed
qed

lemma adistinct_ains: "adistinct t \<Longrightarrow> f \<notin> aset t \<Longrightarrow> adistinct (ains m f e t)"
proof (induction t)
  case E
  then show ?case by simp
next
  case (AT a vs cs)
  let ?p = "lower_bound vs e"
  let ?c = "ains m f e (cs ! ?p)"
  show ?case
  proof (cases "?p < length cs")
    case True
    then have mem: "cs ! ?p \<in> set cs" by simp
    have fa: "f \<noteq> a" and fc: "\<forall>c\<in>set cs. f \<notin> aset c" using AT.prems(2) by auto
    have 1: "adistinct ?c" using AT mem by auto
    have sub: "aset ?c \<subseteq> insert f (aset (cs ! ?p))" by (rule aset_ains_sub)
    have 2: "a \<notin> (\<Union>c\<in>set (cs[?p := ?c]). aset c)"
    proof -
      have "(\<Union>c\<in>set (cs[?p := ?c]). aset c) \<subseteq> insert f (\<Union>c\<in>set cs. aset c)"
        using True sub by (auto simp: UN_list_update UN_list_nth [of _ cs])
      then show ?thesis using fa AT.prems(1) by auto
    qed
    have 3: "\<forall>c\<in>set (cs[?p := ?c]). adistinct c"
    proof
      fix c assume "c \<in> set (cs[?p := ?c])"
      then have "c = ?c \<or> c \<in> set cs" using set_update_subset_insert [of cs ?p ?c] by auto
      then show "adistinct c" using 1 AT.prems(1) by auto
    qed
    have 4: "\<forall>i<length cs. \<forall>j<length cs. i \<noteq> j \<longrightarrow> aset (cs[?p := ?c] ! i) \<inter> aset (cs[?p := ?c] ! j) = {}"
    proof (intro allI impI)
      fix i j assume ij: "i < length cs" "j < length cs" "i \<noteq> j"
      then have d: "aset (cs ! i) \<inter> aset (cs ! j) = {}" using AT.prems(1) by simp
      have fi: "f \<notin> aset (cs ! i)" and fj: "f \<notin> aset (cs ! j)" using fc ij by auto
      have dp: "i \<noteq> ?p \<Longrightarrow> aset (cs ! i) \<inter> aset (cs ! ?p) = {}"
               "j \<noteq> ?p \<Longrightarrow> aset (cs ! ?p) \<inter> aset (cs ! j) = {}"
        using AT.prems(1) ij True by simp_all
      consider "i = ?p" "j \<noteq> ?p" | "j = ?p" "i \<noteq> ?p" | "i \<noteq> ?p" "j \<noteq> ?p"
        using ij by auto
      then show "aset (cs[?p := ?c] ! i) \<inter> aset (cs[?p := ?c] ! j) = {}"
      proof cases
        case 1
        then have "aset (cs[?p := ?c] ! i) \<subseteq> insert f (aset (cs ! ?p))"
                  "aset (cs[?p := ?c] ! j) = aset (cs ! j)"
          using sub True by simp_all
        then show ?thesis using dp(2) [OF 1(2)] fj by blast
      next
        case 2
        then have "aset (cs[?p := ?c] ! j) \<subseteq> insert f (aset (cs ! ?p))"
                  "aset (cs[?p := ?c] ! i) = aset (cs ! i)"
          using sub True by simp_all
        then show ?thesis using dp(1) [OF 2(2)] fi by blast
      next
        case 3
        then show ?thesis using d by simp
      qed
    qed
    show ?thesis using 2 3 4 AT.prems(1) True by simp
  next
    case False
    then show ?thesis using AT.prems(1) by auto
  qed
qed


section \<open>Insertion in the store\<close>


lemma returns_SucI: "\<forall>n. f (Suc n) = Inr y \<Longrightarrow> returns f y"
  by (rule returns_Suc) simp


lemma returns_SucSucI: "\<forall>n. f (Suc (Suc n)) = Inr y \<Longrightarrow> returns f y"
  by (rule returns_Suc, rule returns_Suc) simp

lemma child_shape: "shape m (AT a vs cs) \<Longrightarrow> c \<in> set cs \<Longrightarrow> shape m c"
  by simp

lemma child_bst: "bst (AT a vs cs) \<Longrightarrow> c \<in> set cs \<Longrightarrow> bst c"
  by simp

lemma child_adistinct: "adistinct (AT a vs cs) \<Longrightarrow> c \<in> set cs \<Longrightarrow> adistinct c"
  by simp

lemma child_hrep: "hrep h r m p (AT a vs cs) \<Longrightarrow> c \<in> set cs \<Longrightarrow> hrep h r m (Some a) c"
  by simp

lemma hrep_bound: "hrep h r m p t \<Longrightarrow> x \<in> aset t \<Longrightarrow> x < length (nodes h)"
  by (induction t arbitrary: p) auto

lemma hrep_frame:
  "hrep h r m p t \<Longrightarrow> length (nodes h) \<le> length (nodes h') \<Longrightarrow>
   \<forall>x\<in>aset t. nodes h' ! x = nodes h ! x \<Longrightarrow> hrep h' r m p t"
proof (induction t arbitrary: p)
  case E
  then show ?case by simp
next
  case (AT a vs cs)
  have "\<forall>c\<in>set cs. hrep h' r m (Some a) c"
  proof
    fix c assume c: "c \<in> set cs"
    then have "hrep h r m (Some a) c" using AT.prems(1) by simp
    moreover have "\<forall>x\<in>aset c. nodes h' ! x = nodes h ! x" using AT.prems(3) c by auto
    ultimately show "hrep h' r m (Some a) c" using AT.IH [OF c] AT.prems(2) by blast
  qed
  moreover have "nodes h' ! a = nodes h ! a" using AT.prems(3) by simp
  ultimately show ?case using AT.prems(1,2) by simp
qed

lemma hrep_node:
  "hrep h r m p (AT a vs cs) \<Longrightarrow>
   node h a = Inr \<lparr>root = r, parent = p, children = map addr_of cs, maxSize = m, val = vs\<rparr>"
  by (simp add: node_def)

lemma hrep_all_E: "set cs \<subseteq> {E} \<Longrightarrow> c \<in> set cs \<Longrightarrow> hrep h r m q c"
  by auto

lemma store_simps [simp]:
  "nodes (set_val h a v) = (nodes h)[a := (nodes h ! a)\<lparr>val := v\<rparr>]"
  "btrees (set_val h a v) = btrees h"
  "nodes (set_child h a i c) = (nodes h)[a := (nodes h ! a)\<lparr>children := (children (nodes h ! a))[i := c]\<rparr>]"
  "btrees (set_child h a i c) = btrees h"
  by (simp_all add: set_val_def set_child_def)

lemma lower_bound_vec_insert:
  "sorted_wrt (<) vs \<Longrightarrow> e \<notin> set vs \<Longrightarrow>
   lower_bound (vec_insert vs (lower_bound vs e) e) e = lower_bound vs e"
  by (induction vs) (auto simp: lower_bound_Cons vec_insert_def)

lemma hit_vec_insert:
  "sorted_wrt (<) vs \<Longrightarrow> e \<notin> set vs \<Longrightarrow> hit (vec_insert vs (lower_bound vs e) e) e"
  using lower_bound_le [of vs e] by (simp add: hit_def lower_bound_vec_insert)

lemma hit_single [simp]: "hit [e] e" "lower_bound [e] e = 0"
  by (simp_all add: hit_def lower_bound_Cons)

lemma all_E_inorder_AT: "set cs \<subseteq> {E} \<Longrightarrow> set (inorder (AT a vs cs)) = set vs"
proof -
  assume "set cs \<subseteq> {E}"
  then have "\<forall>c\<in>set cs. set (inorder c) = {}" by auto
  then show ?thesis by (simp add: set_inorder_AT del: inorder.simps)
qed

lemma update_children:
  "p < length cs \<Longrightarrow> P c' \<Longrightarrow> \<forall>i<length cs. i \<noteq> p \<longrightarrow> P (cs ! i) \<Longrightarrow> \<forall>c\<in>set (cs[p := c']). P c"
  by (auto simp: set_conv_nth nth_list_update)

lemma bst_elem_slot:
  "bst (AT a vs cs) \<Longrightarrow> e \<notin> set vs \<Longrightarrow> lower_bound vs e < length cs \<Longrightarrow>
   e \<in> set (inorder (AT a vs cs)) \<longleftrightarrow> e \<in> set (inorder (cs ! lower_bound vs e))"
proof -
  assume b: "bst (AT a vs cs)" and n: "e \<notin> set vs" and p: "lower_bound vs e < length cs"
  have old: "\<forall>i<length cs. \<forall>x\<in>set (inorder (cs ! i)). lower_bound vs x = i \<and> x \<notin> set vs"
    using b unfolding bst.simps by blast
  show ?thesis
  proof
    assume "e \<in> set (inorder (AT a vs cs))"
    with n obtain c where "c \<in> set cs" "e \<in> set (inorder c)"
      by (auto simp: set_inorder_AT simp del: inorder.simps)
    then obtain i where i: "i < length cs" "e \<in> set (inorder (cs ! i))"
      by (auto simp: in_set_conv_nth)
    with old have "lower_bound vs e = i" by blast
    with i show "e \<in> set (inorder (cs ! lower_bound vs e))" by simp
  next
    assume "e \<in> set (inorder (cs ! lower_bound vs e))"
    moreover have "cs ! lower_bound vs e \<in> set cs" using p by simp
    ultimately show "e \<in> set (inorder (AT a vs cs))"
      by (auto simp: set_inorder_AT simp del: inorder.simps)
  qed
qed

lemma nodeInsert_Suc:
  "nodeInsert (Suc n) h this elem =
     thenE (node h this) (\<lambda>nd.
       if val nd = [] then Inr (set_val h this [elem], iterator this 0, True)
       else if hit (val nd) elem then Inr (h, iterator this (lower_bound (val nd) elem), False)
       else if to_unsigned (length (val nd)) < maxSize nd
       then Inr (set_val h this (vec_insert (val nd) (lower_bound (val nd) elem) elem),
                 iterator this (lower_bound (val nd) elem), True)
       else thenE (at (children nd) (lower_bound (val nd) elem)) (\<lambda>c.
         case c of
           Some c' \<Rightarrow> nodeInsert n h c' elem
         | None \<Rightarrow>
             (case make_Node h (root nd) (Some this) (maxSize nd) of
                (h1, c') \<Rightarrow>
                  nodeInsert n (set_child h1 this (lower_bound (val nd) elem) (Some c')) c' elem)))"
  by (simp add: hit_def Let_def cong: if_cong)

declare nodeInsert.simps(2) [simp del]

lemma nodeInsert_hrep:
  "hrep h r m p t \<Longrightarrow> t \<noteq> E \<Longrightarrow> shape m t \<Longrightarrow> bst t \<Longrightarrow> adistinct t \<Longrightarrow> 1 \<le> m \<Longrightarrow>
   m < 2 ^ 31 \<Longrightarrow>
   \<exists>h'. returns (\<lambda>n. nodeInsert n h (taddr t) e)
          (h', locate e (ains m (length (nodes h)) e t), e \<notin> set (inorder t)) \<and>
        ins_post h r m p t e h'"
proof (induction t arbitrary: h p)
  case E
  then show ?case by simp
next
  case (AT a vs cs)
  let ?t = "AT a vs cs"
  let ?f = "length (nodes h)"
  let ?p = "lower_bound vs e"
  let ?nd = "\<lparr>root = r, parent = p, children = map addr_of cs, maxSize = m, val = vs\<rparr>"
  have nd: "node h a = Inr ?nd" using AT.prems(1) by (rule hrep_node)
  have a: "a < ?f" and na: "nodes h ! a = ?nd" and kids: "\<forall>c\<in>set cs. hrep h r m (Some a) c"
    using AT.prems(1) by simp_all
  have p: "?p < length cs" using AT.prems(3) by (rule shape_children)
  have srt: "sorted_wrt (<) vs" using AT.prems(4) by simp
  have anin: "\<forall>c\<in>set cs. a \<notin> aset c" using AT.prems(5) by simp
  have "length vs \<le> m" using AT.prems(3) by simp
  then have tu [simp]: "to_unsigned (length vs) = length vs"
    using AT.prems(7) by (rule cap_unsigned [rotated])
  note ws [simp] = cap_slots [OF AT.prems(7)]
  consider (empty) "vs = []" | (found) "vs \<noteq> []" "hit vs e"
    | (room) "vs \<noteq> []" "\<not> hit vs e" "length vs < m"
    | (down) "vs \<noteq> []" "\<not> hit vs e" "\<not> length vs < m"
    by blast
  then show ?case
  proof cases
    case empty
    let ?h' = "set_val h a [e]"
    have "length vs < m" using empty AT.prems(6) by simp
    then have e: "set cs \<subseteq> {E}" using AT.prems(3) shape_no_children by blast
    have t': "ains m ?f e ?t = AT a [e] cs" using empty by simp
    have "\<forall>n. nodeInsert (Suc n) h a e = Inr (?h', iterator a 0, True)"
      using nd empty by (simp add: nodeInsert_Suc)
    then have 1: "returns (\<lambda>n. nodeInsert n h a e) (?h', iterator a 0, True)"
      by (rule returns_SucI)
    have 2: "hrep ?h' r m p (AT a [e] cs)" using a na hrep_all_E [OF e] by simp
    have 3: "set (inorder ?t) = {}" using empty e by (simp add: all_E_inorder_AT del: inorder.simps)
    have 4: "ins_post h r m p ?t e ?h'"
      unfolding ins_post_def t' using 2 3 by (simp add: nth_list_update)
    show ?thesis using 1 3 4 unfolding t' by (intro exI [of _ ?h']) simp
  next
    case found
    have t': "ains m ?f e ?t = ?t" using found by simp
    have "\<forall>n. nodeInsert (Suc n) h a e = Inr (h, iterator a ?p, False)"
      using nd found by (simp add: nodeInsert_Suc)
    then have 1: "returns (\<lambda>n. nodeInsert n h a e) (h, iterator a ?p, False)"
      by (rule returns_SucI)
    have 3: "e \<in> set (inorder ?t)" using found hit_mem [of vs e] by (simp add: set_inorder_AT del: inorder.simps)
    have 4: "ins_post h r m p ?t e h"
      unfolding ins_post_def t' using AT.prems(1) by simp
    show ?thesis using 1 3 4 found unfolding t' by (intro exI [of _ h]) simp
  next
    case room
    let ?vs' = "vec_insert vs ?p e"
    let ?h' = "set_val h a ?vs'"
    have e: "set cs \<subseteq> {E}" using room AT.prems(3) shape_no_children by blast
    have nin: "e \<notin> set vs" using room srt by (simp add: hit_iff)
    have t': "ains m ?f e ?t = AT a ?vs' cs" using room by simp
    have "\<forall>n. nodeInsert (Suc n) h a e = Inr (?h', iterator a ?p, True)"
      using nd room by (simp add: nodeInsert_Suc)
    then have 1: "returns (\<lambda>n. nodeInsert n h a e) (?h', iterator a ?p, True)"
      by (rule returns_SucI)
    have 2: "hrep ?h' r m p (AT a ?vs' cs)" using a na hrep_all_E [OF e] by simp
    have 3: "e \<notin> set (inorder ?t)" using nin e by (simp add: all_E_inorder_AT del: inorder.simps)
    have 4: "ins_post h r m p ?t e ?h'"
      unfolding ins_post_def t' using 2 3 by (simp add: nth_list_update)
    have 5: "locate e (AT a ?vs' cs) = iterator a ?p"
      using srt nin by (simp add: hit_vec_insert lower_bound_vec_insert)
    show ?thesis using 1 3 4 5 unfolding t' by (intro exI [of _ ?h']) simp
  next
    case down
    let ?c = "cs ! ?p"
    note IH = AT.IH and prems = AT.prems
    have full: "length vs = m" using prems(3) down(3) by (rule shape_full)
    have mem: "?c \<in> set cs" using p by simp
    have nin: "e \<notin> set vs" using down srt by (simp add: hit_iff)
    have slot: "e \<in> set (inorder ?t) \<longleftrightarrow> e \<in> set (inorder ?c)"
      using prems(4) nin p by (rule bst_elem_slot)
    have t': "ains m ?f e ?t = AT a vs (cs[?p := ains m ?f e ?c])" using down p by simp
    have loc: "locate e (AT a vs (cs[?p := c'])) = locate e c'" for c' using down p by simp
    have atp: "at (map addr_of cs) ?p = Inr (addr_of ?c)" using p by (simp add: at_def)
    have sib: "\<forall>i<length cs. i \<noteq> ?p \<longrightarrow> hrep h' r m (Some a) (cs ! i)"
      if len: "length (nodes h) \<le> length (nodes h')"
        and fr: "\<forall>x<length (nodes h). x \<noteq> a \<and> x \<notin> aset ?c \<longrightarrow> nodes h' ! x = nodes h ! x" for h'
    proof (intro allI impI)
      fix i assume i: "i < length cs" "i \<noteq> ?p"
      have hi: "hrep h r m (Some a) (cs ! i)" using kids i by simp
      have dis: "aset (cs ! i) \<inter> aset ?c = {}" using prems(5) i p by simp
      show "hrep h' r m (Some a) (cs ! i)"
      proof (rule hrep_frame [OF hi len], rule ballI)
        fix x assume x: "x \<in> aset (cs ! i)"
        then have "x < length (nodes h)" using hi hrep_bound by blast
        moreover have "x \<noteq> a" using anin x i by auto
        moreover have "x \<notin> aset ?c" using dis x by auto
        ultimately show "nodes h' ! x = nodes h ! x" using fr by blast
      qed
    qed
    show ?thesis
    proof (cases ?c)
      case E
      let ?new = "\<lparr>root = r, parent = Some a, children = replicate (Suc m) None, maxSize = m, val = []\<rparr>"
      let ?c' = "AT ?f [e] (replicate (Suc m) E)"
      define h' where
        "h' = set_val (set_child (h\<lparr>nodes := nodes h @ [?new]\<rparr>) a ?p (Some ?f)) ?f [e]"
      have c': "ains m ?f e ?c = ?c'" using E by simp
      have "\<forall>n. nodeInsert (Suc (Suc n)) h a e = Inr (h', iterator ?f 0, True)"
        using nd down atp E a unfolding h'_def
        by (simp add: nodeInsert_Suc make_Node_def node_def nth_append)
      then have 1: "returns (\<lambda>n. nodeInsert n h a e) (h', iterator ?f 0, True)"
        by (rule returns_SucSucI)
      have 3: "e \<notin> set (inorder ?t)" using slot E by simp
      have nodes': "nodes h' =
          (nodes h)[a := ?nd\<lparr>children := (map addr_of cs)[?p := Some ?f]\<rparr>] @ [?new\<lparr>val := [e]\<rparr>]"
        unfolding h'_def using a na by (simp add: list_update_append nth_append)
      have bt: "btrees h' = btrees h" unfolding h'_def by simp
      have len: "length (nodes h) \<le> length (nodes h')" unfolding nodes' by simp
      have fr: "\<forall>x<length (nodes h). x \<noteq> a \<and> x \<notin> aset ?c \<longrightarrow> nodes h' ! x = nodes h ! x"
        unfolding nodes' by (simp add: nth_append)
      have new: "hrep h' r m (Some a) ?c'"
        unfolding hrep.simps nodes' by (simp add: nth_append)
      have ch: "\<forall>c\<in>set (cs[?p := ?c']). hrep h' r m (Some a) c"
        using p new sib [OF len fr] by (rule update_children)
      have na': "nodes h' ! a = ?nd\<lparr>children := map addr_of (cs[?p := ?c'])\<rparr>"
        unfolding nodes' using a by (simp add: nth_append map_update)
      have 2: "hrep h' r m p (AT a vs (cs[?p := ?c']))"
        unfolding hrep.simps using ch a na' len by simp
      have 4: "ins_post h r m p ?t e h'"
        unfolding ins_post_def t' c' using 2 3 fr len bt E by simp
      show ?thesis using 1 3 4 loc [of ?c'] unfolding t' c' by (intro exI [of _ h']) simp
    next
      case (AT b ws ds)
      have cprem: "hrep h r m (Some a) ?c" "?c \<noteq> E" "shape m ?c" "bst ?c" "adistinct ?c"
        using child_hrep [OF prems(1) mem] AT child_shape [OF prems(3) mem]
          child_bst [OF prems(4) mem] child_adistinct [OF prems(5) mem] by simp_all
      obtain h' where
        r: "returns (\<lambda>n. nodeInsert n h (taddr ?c) e)
              (h', locate e (ains m ?f e ?c), e \<notin> set (inorder ?c))"
        and post: "ins_post h r m (Some a) ?c e h'"
        using IH [OF mem cprem prems(6,7)] by blast
      let ?c' = "ains m ?f e ?c"
      have "\<forall>n. nodeInsert (Suc n) h a e = nodeInsert n h (taddr ?c) e"
        using nd down atp AT by (simp add: nodeInsert_Suc)
      then have 1: "returns (\<lambda>n. nodeInsert n h a e) (h', locate e ?c', e \<notin> set (inorder ?c))"
        using r by (intro returns_Suc [of "\<lambda>n. nodeInsert n h a e"]) simp
      have len: "length (nodes h) \<le> length (nodes h')"
        and fr: "\<forall>x<length (nodes h). x \<notin> aset ?c \<longrightarrow> nodes h' ! x = nodes h ! x"
        and hc': "hrep h' r m (Some a) ?c'"
        and bt: "btrees h' = btrees h"
        and same: "e \<in> set (inorder ?c) \<longrightarrow> h' = h"
        using post unfolding ins_post_def by blast+
      have fr': "\<forall>x<length (nodes h). x \<noteq> a \<and> x \<notin> aset ?c \<longrightarrow> nodes h' ! x = nodes h ! x"
        using fr by blast
      have na': "nodes h' ! a = ?nd" using fr a anin mem na by auto
      have ch: "\<forall>c\<in>set (cs[?p := ?c']). hrep h' r m (Some a) c"
        using p hc' sib [OF len fr'] by (rule update_children)
      have ad: "map addr_of (cs[?p := ?c']) = map addr_of cs"
        using cprem(2) p by (simp add: map_update addr_of_ains list_update_same_conv)
      have 2: "hrep h' r m p (AT a vs (cs[?p := ?c']))"
        unfolding hrep.simps ad using ch a na' len by simp
      have 4: "ins_post h r m p ?t e h'"
        unfolding ins_post_def t' using 2 len fr bt same slot mem by auto
      show ?thesis using 1 4 loc [of ?c'] slot unfolding t' by (intro exI [of _ h']) simp
    qed
  qed
qed


section \<open>A tree under a sequence of insertions\<close>


lemma tree_inv_rootNode: "tree_inv h b m t \<Longrightarrow> rootNode h b = Inr (taddr t)"
  by (simp add: tree_inv_def rootNode_def)

lemma btree_insert_inv:
  assumes "tree_inv h b m t"
  shows "\<exists>h'. returns (\<lambda>n. btree_insert n h b e)
               (h', locate e (ains m (length (nodes h)) e t), e \<notin> set (inorder t)) \<and>
             tree_inv h' b m (ains m (length (nodes h)) e t) \<and>
             ins_post h b m None t e h'"
proof -
  let ?t' = "ains m (length (nodes h)) e t"
  have inv: "hrep h b m None t" "t \<noteq> E" "shape m t" "bst t" "adistinct t" "1 \<le> m"
    "m < 2 ^ 31"
    using assms by (simp_all add: tree_inv_def)
  obtain h' where r: "returns (\<lambda>n. nodeInsert n h (taddr t) e) (h', locate e ?t', e \<notin> set (inorder t))"
    and post: "ins_post h b m None t e h'"
    using nodeInsert_hrep [OF inv] by blast
  have 1: "returns (\<lambda>n. btree_insert n h b e) (h', locate e ?t', e \<notin> set (inorder t))"
    using r tree_inv_rootNode [OF assms] by (simp add: btree_insert_def)
  have fresh: "length (nodes h) \<notin> aset t" using hrep_bound [OF inv(1)] by blast
  have "taddr ?t' = taddr t" using inv(2) addr_of_ains [of t m "length (nodes h)" e]
    by (cases t; cases ?t') auto
  then have 2: "tree_inv h' b m ?t'"
    using assms post shape_ains [OF inv(3,6)] bst_ains [OF inv(4,3,6)]
      adistinct_ains [OF inv(5) fresh]
    by (simp add: tree_inv_def ins_post_def)
  show ?thesis using 1 2 post by blast
qed

lemma inserts_inv:
  "tree_inv h b m t \<Longrightarrow>
   \<exists>h' t'. returns (\<lambda>n. inserts n h b xs) h' \<and> tree_inv h' b m t' \<and>
           set (inorder t') = set (inorder t) \<union> set xs"
proof (induction xs arbitrary: h t)
  case Nil
  then show ?case by auto
next
  case (Cons x xs)
  let ?t1 = "ains m (length (nodes h)) x t"
  obtain h1 where r1: "returns (\<lambda>n. btree_insert n h b x) (h1, locate x ?t1, x \<notin> set (inorder t))"
    and inv1: "tree_inv h1 b m ?t1"
    using btree_insert_inv [OF Cons.prems] by blast
  have s1: "set (inorder ?t1) = insert x (set (inorder t))"
    using Cons.prems by (intro set_inorder_ains) (simp add: tree_inv_def)
  obtain h' t' where r2: "returns (\<lambda>n. inserts n h1 b xs) h'" and inv2: "tree_inv h' b m t'"
    and s2: "set (inorder t') = set (inorder ?t1) \<union> set xs"
    using Cons.IH [OF inv1] by blast
  have "returns (\<lambda>n. thenE (btree_insert n h b x) (\<lambda>(h', it, b'). inserts n h' b xs)) h'"
    using r1 by (rule returns_thenE) (simp add: r2)
  then have "returns (\<lambda>n. inserts n h b (x # xs)) h'" by simp
  then show ?case using inv2 s1 s2 by (intro exI [of _ h'] exI [of _ t']) auto
qed

lemma btree_new_inv:
  "1 \<le> cap \<Longrightarrow> cap < 2 ^ 31 \<Longrightarrow> btree_new h cap = (h', b) \<Longrightarrow>
   tree_inv h' b cap (AT (length (nodes h)) [] (replicate (Suc cap) E)) \<and> b = length (btrees h) \<and>
   nodes h' = nodes h @ [\<lparr>root = b, parent = None, children = replicate (Suc cap) None, maxSize = cap, val = []\<rparr>] \<and>
   btrees h' = btrees h @ [Some (length (nodes h))]"
  by (auto simp: btree_new_def make_Node_def tree_inv_def Let_def nth_append cap_slots)

lemma build_inv:
  assumes "1 \<le> cap" and "cap < 2 ^ 31"
  shows "\<exists>h t. returns (\<lambda>n. build n cap xs) (h, 0) \<and> tree_inv h 0 cap t \<and>
               set (inorder t) = set xs"
proof -
  obtain h0 b where new: "btree_new (empty_store :: 'a store) cap = (h0, b)" by fastforce
  have inv0: "tree_inv h0 b cap (AT 0 [] (replicate (Suc cap) E))" and b: "b = 0"
    using btree_new_inv [OF assms new] by (auto simp: empty_store_def)
  obtain h t where r: "returns (\<lambda>n. inserts n h0 b xs) h" and inv: "tree_inv h b cap t"
    and s: "set (inorder t) = set (inorder (AT 0 [] (replicate (Suc cap) E))) \<union> set xs"
    using inserts_inv [OF inv0] by blast
  have "returns (\<lambda>n. thenE (inserts n h0 b xs) (\<lambda>h'. Inr (h', b))) (h, b)"
    using r by (rule returns_thenE) simp
  then have 1: "returns (\<lambda>n. build n cap xs) (h, 0)" using new b by (simp add: build_def)
  have "set (inorder (AT 0 [] (replicate (Suc cap) E))) = {}"
    by (simp add: all_E_inorder_AT del: inorder.simps replicate.simps)
  with s have 2: "set (inorder t) = set xs" by simp
  show ?thesis using 1 inv 2 b by blast
qed


section \<open>Positions in order\<close>


lemma map_interleave: "map f (interleave cs vs) = interleave (map (map f) cs) (map f vs)"
  by (induction cs vs rule: interleave.induct) (auto simp: map_concat)

lemma chain_append: "chain R (xs @ ys) k \<longleftrightarrow> chain R xs (hd (ys @ [k])) \<and> chain R ys k"
  by (induction xs) (auto simp: hd_append)

lemma aset_root:
  "hrep h r m p t \<Longrightarrow> x \<in> aset t \<Longrightarrow> x < length (nodes h) \<and> root (nodes h ! x) = r"
  by (induction t arbitrary: p) auto

lemma star_slot:
  "hrep h r m p (AT a vs cs) \<Longrightarrow> i < length vs \<Longrightarrow> star h (pos (iterator a i)) = Inr (vs ! i)"
  by (simp add: star_def iterator_def node_def at_def)

lemma star_poss: "hrep h r m p t \<Longrightarrow> map (\<lambda>q. star h (pos q)) (poss t) = map Inr (inorder t)"
proof (induction t arbitrary: p)
  case E
  then show ?case by simp
next
  case (AT a vs cs)
  have 1: "map (map (\<lambda>q. star h (pos q))) (map poss cs) = map (map Inr) (map inorder cs)"
    unfolding map_map comp_def
  proof (rule map_cong [OF refl])
    fix c assume c: "c \<in> set cs"
    show "map (\<lambda>q. star h (pos q)) (poss c) = map Inr (inorder c)"
      using AT.IH [OF c child_hrep [OF AT.prems c]] .
  qed
  have 2: "map (\<lambda>q. star h (pos q)) (map (iterator a) [0..<length vs]) = map Inr vs"
  proof (rule nth_equalityI)
    show "length (map (\<lambda>q. star h (pos q)) (map (iterator a) [0..<length vs])) = length (map Inr vs)"
      by simp
  next
    fix i assume "i < length (map (\<lambda>q. star h (pos q)) (map (iterator a) [0..<length vs]))"
    then have i: "i < length vs" by simp
    show "map (\<lambda>q. star h (pos q)) (map (iterator a) [0..<length vs]) ! i = map Inr vs ! i"
      using i star_slot [OF AT.prems i] by simp
  qed
  show ?case by (simp only: poss.simps inorder.simps map_interleave 1 2)
qed

lemma poss_valid:
  "hrep h r m p t \<Longrightarrow> q \<in> set (poss t) \<Longrightarrow>
   \<exists>x i. q = iterator x i \<and> x \<in> aset t \<and> i < length (val (nodes h ! x))"
proof (induction t arbitrary: p)
  case E
  then show ?case by simp
next
  case (AT a vs cs)
  from AT.prems(2) consider "q \<in> set (map (iterator a) [0..<length vs])"
    | c where "c \<in> set cs" "q \<in> set (poss c)"
    by (auto simp: set_interleave)
  then show ?case
  proof cases
    case 1
    then obtain i where "i < length vs" "q = iterator a i" by auto
    then show ?thesis using AT.prems(1) by (intro exI [of _ a] exI [of _ i]) simp
  next
    case 2
    then have "\<exists>x i. q = iterator x i \<and> x \<in> aset c \<and> i < length (val (nodes h ! x))"
      using AT.IH [OF 2(1) child_hrep [OF AT.prems(1) 2(1)]] by simp
    then show ?thesis using 2(1) by auto
  qed
qed

lemma end_pos_valid:
  "hrep h r m p t \<Longrightarrow> t \<noteq> E \<Longrightarrow>
   \<exists>x. end_pos t = iterator x (length (val (nodes h ! x))) \<and> x \<in> aset t \<and>
       val (nodes h ! x) = end_vals t"
proof (induction t arbitrary: p)
  case E
  then show ?case by simp
next
  case (AT a vs cs)
  show ?case
  proof (cases "length vs < length cs \<and> cs ! length vs \<noteq> E")
    case True
    let ?c = "cs ! length vs"
    have mem: "?c \<in> set cs" using True by simp
    then have "\<exists>x. end_pos ?c = iterator x (length (val (nodes h ! x))) \<and> x \<in> aset ?c \<and>
       val (nodes h ! x) = end_vals ?c"
      using AT.IH [OF mem child_hrep [OF AT.prems(1) mem]] True by simp
    then show ?thesis using True mem by auto
  next
    case False
    then show ?thesis using AT.prems(1) by (intro exI [of _ a]) auto
  qed
qed

lemma set_end_vals: "set (end_vals t) \<subseteq> set (inorder t)"
proof (induction t)
  case E
  then show ?case by simp
next
  case (AT a vs cs)
  show ?case
  proof (cases "length vs < length cs \<and> cs ! length vs \<noteq> E")
    case True
    let ?c = "cs ! length vs"
    have mem: "?c \<in> set cs" using True by simp
    then have "set (end_vals ?c) \<subseteq> set (inorder ?c)" using AT.IH by simp
    then show ?thesis using True mem by (auto simp: set_inorder_AT simp del: inorder.simps)
  next
    case False
    then show ?thesis by (auto simp: set_inorder_AT simp del: inorder.simps)
  qed
qed

lemma leftmost_first:
  "hrep h r m p t \<Longrightarrow> t \<noteq> E \<Longrightarrow> shape m t \<Longrightarrow>
   returns (\<lambda>n. leftmost n h (taddr t)) (first_node t)"
proof (induction t arbitrary: p)
  case E
  then show ?case by simp
next
  case (AT a vs cs)
  have nd: "node h a = Inr \<lparr>root = r, parent = p, children = map addr_of cs, maxSize = m, val = vs\<rparr>"
    using AT.prems(1) by (rule hrep_node)
  have len: "0 < length cs" using AT.prems(3) by simp
  then have at0: "at (map addr_of cs) 0 = Inr (addr_of (cs ! 0))" by (simp add: at_def)
  have mem: "cs ! 0 \<in> set cs" using len by simp
  show ?case
  proof (cases "cs ! 0")
    case E
    then have "\<forall>n. leftmost (Suc n) h a = Inr a" using nd at0 by simp
    then have "returns (\<lambda>n. leftmost n h a) a" by (rule returns_SucI)
    then show ?thesis using E len by simp
  next
    case (AT b ws ds)
    have "returns (\<lambda>n. leftmost n h (taddr (cs ! 0))) (first_node (cs ! 0))"
      using AT.IH [OF mem] child_hrep [OF AT.prems(1) mem] child_shape [OF AT.prems(3) mem] AT
      by simp
    moreover have "\<forall>n. leftmost (Suc n) h a = leftmost n h (taddr (cs ! 0))"
      using nd at0 AT by simp
    ultimately have "returns (\<lambda>n. leftmost n h a) (first_node (cs ! 0))"
      by (intro returns_Suc [of "\<lambda>n. leftmost n h a"]) simp
    then show ?thesis using AT len by simp
  qed
qed



lemma nodeBegin_first:
  "hrep h r m p t \<Longrightarrow> t \<noteq> E \<Longrightarrow> shape m t \<Longrightarrow> vals t \<noteq> [] \<Longrightarrow>
   returns (\<lambda>n. nodeBegin n h (taddr t)) (iterator (first_node t) 0)"
proof (induction t arbitrary: p)
  case E
  then show ?case by simp
next
  case (AT a vs cs)
  have nd: "node h a = Inr \<lparr>root = r, parent = p, children = map addr_of cs, maxSize = m, val = vs\<rparr>"
    using AT.prems(1) by (rule hrep_node)
  have len: "0 < length cs" using AT.prems(3) by simp
  then have at0: "at (map addr_of cs) 0 = Inr (addr_of (cs ! 0))" by (simp add: at_def)
  have mem: "cs ! 0 \<in> set cs" using len by simp
  show ?case
  proof (cases "cs ! 0")
    case E
    then have "\<forall>n. nodeBegin (Suc n) h a = Inr (iterator a 0)" using nd at0 AT.prems(4) by simp
    then have "returns (\<lambda>n. nodeBegin n h a) (iterator a 0)" by (rule returns_SucI)
    then show ?thesis using E len by simp
  next
    case (AT b ws ds)
    have "vals (cs ! 0) \<noteq> []" using AT.prems(3) mem AT by auto
    then have "returns (\<lambda>n. nodeBegin n h (taddr (cs ! 0))) (iterator (first_node (cs ! 0)) 0)"
      using AT.IH [OF mem] child_hrep [OF AT.prems(1) mem] child_shape [OF AT.prems(3) mem] AT
      by simp
    moreover have "\<forall>n. nodeBegin (Suc n) h a = nodeBegin n h (taddr (cs ! 0))"
      using nd at0 AT by simp
    ultimately have "returns (\<lambda>n. nodeBegin n h a) (iterator (first_node (cs ! 0)) 0)"
      by (intro returns_Suc [of "\<lambda>n. nodeBegin n h a"]) simp
    then show ?thesis using AT len by simp
  qed
qed

lemma nodeEnd_end:
  "hrep h r m p t \<Longrightarrow> t \<noteq> E \<Longrightarrow> shape m t \<Longrightarrow> vals t \<noteq> [] \<Longrightarrow>
   returns (\<lambda>n. nodeEnd n h (taddr t)) (end_pos t)"
proof (induction t arbitrary: p)
  case E
  then show ?case by simp
next
  case (AT a vs cs)
  let ?L = "length vs"
  have nd: "node h a = Inr \<lparr>root = r, parent = p, children = map addr_of cs, maxSize = m, val = vs\<rparr>"
    using AT.prems(1) by (rule hrep_node)
  have len: "?L < length cs" using AT.prems(3) by simp
  then have atL: "at (map addr_of cs) ?L = Inr (addr_of (cs ! ?L))" by (simp add: at_def)
  have mem: "cs ! ?L \<in> set cs" using len by simp
  show ?case
  proof (cases "cs ! ?L")
    case E
    then have "\<forall>n. nodeEnd (Suc n) h a = Inr (iterator a ?L)" using nd atL AT.prems(4) by simp
    then have "returns (\<lambda>n. nodeEnd n h a) (iterator a ?L)" by (rule returns_SucI)
    then show ?thesis using E len by simp
  next
    case (AT b ws ds)
    have "vals (cs ! ?L) \<noteq> []" using AT.prems(3) mem AT by auto
    then have "returns (\<lambda>n. nodeEnd n h (taddr (cs ! ?L))) (end_pos (cs ! ?L))"
      using AT.IH [OF mem] child_hrep [OF AT.prems(1) mem] child_shape [OF AT.prems(3) mem] AT
      by simp
    moreover have "\<forall>n. nodeEnd (Suc n) h a = nodeEnd n h (taddr (cs ! ?L))"
      using nd atL AT by simp
    ultimately have "returns (\<lambda>n. nodeEnd n h a) (end_pos (cs ! ?L))"
      by (intro returns_Suc [of "\<lambda>n. nodeEnd n h a"]) simp
    then show ?thesis using AT len by simp
  qed
qed

lemma interleave_Cons_hd:
  "c \<noteq> [] \<Longrightarrow> hd (interleave (c # cs) vs @ ys) = hd c"
  by (cases vs) auto

lemma first_poss:
  "t \<noteq> E \<Longrightarrow> shape m t \<Longrightarrow> vals t \<noteq> [] \<Longrightarrow> poss t \<noteq> [] \<and> hd (poss t) = iterator (first_node t) 0"
proof (induction t)
  case E
  then show ?case by simp
next
  case (AT a vs cs)
  obtain c cs' where cs: "cs = c # cs'" using AT.prems(2) by (cases cs) auto
  have "0 < length vs" using AT.prems(3) by simp
  then have "[0..<length vs] = 0 # [Suc 0..<length vs]" by (rule upt_conv_Cons)
  then have slots: "map (iterator a) [0..<length vs] = iterator a 0 # map (iterator a) [Suc 0..<length vs]"
    by simp
  show ?case
  proof (cases c)
    case E
    then show ?thesis using cs slots by simp
  next
    case (AT b ws ds)
    have mem: "c \<in> set cs" using cs by simp
    have "vals c \<noteq> []" using AT.prems(2) mem AT by auto
    then have "poss c \<noteq> [] \<and> hd (poss c) = iterator (first_node c) 0"
      using AT.IH [OF mem] child_shape [OF AT.prems(2) mem] AT by simp
    then show ?thesis using cs slots AT by simp
  qed
qed


section \<open>Stepping forward\<close>


lemma ascend_inc_Suc:
  "ascend_inc (Suc n) h temp it =
     thenE (node h (ptr it)) (\<lambda>nd.
     thenE (btree_end n h (root nd)) (\<lambda>e.
       if it_neq it e then
         (case parent nd of
            None \<Rightarrow> Inl NullPointer
          | Some p \<Rightarrow>
              thenE (node h p) (\<lambda>pn.
                if lower_bound (val pn) temp \<noteq> length (val pn)
                then Inr (position (val pn) p (lower_bound (val pn) temp))
                else ascend_inc n h temp (position (val pn) p (lower_bound (val pn) temp))))
       else Inr it))"
  by (simp add: Let_def vit_search_end cong: if_cong option.case_cong)

declare ascend_inc.simps(2) [simp del]

lemma iterator_simps [simp]:
  "ptr (iterator a i) = a" "pos (iterator a i) = VIt a i"
  "(iterator a i)\<lparr>pos := VIt a k\<rparr> = iterator a k"
  by (simp_all add: iterator_def)

lemma it_neq_other: "pos eT = VIt z k \<Longrightarrow> z \<noteq> b \<Longrightarrow> it_neq (iterator b i) eT"
  by (auto simp: it_neq_def it_eq_def iterator_def)

lemma ascend_step:
  assumes "hrep h r m p (AT a vs cs)" "i < length cs" "cs ! i = AT b ws ds"
    and "returns (\<lambda>n. btree_end n h r) eT" "pos eT = VIt z k" "z \<noteq> b"
    and "lower_bound vs x = i" and "vs \<noteq> []"
  shows "i \<noteq> length vs \<Longrightarrow> returns (\<lambda>n. ascend_inc n h x (iterator b (length ws))) (iterator a i)"
    and "i = length vs \<Longrightarrow> returns (\<lambda>n. ascend_inc n h x (iterator a i)) y \<Longrightarrow>
         returns (\<lambda>n. ascend_inc n h x (iterator b (length ws))) y"
proof -
  have mem: "cs ! i \<in> set cs" using assms(2) by simp
  have "hrep h r m (Some a) (AT b ws ds)" using child_hrep [OF assms(1) mem] assms(3) by simp
  then have nb: "node h b = Inr \<lparr>root = r, parent = Some a, children = map addr_of ds, maxSize = m, val = ws\<rparr>"
    by (rule hrep_node)
  have na: "node h a = Inr \<lparr>root = r, parent = p, children = map addr_of cs, maxSize = m, val = vs\<rparr>"
    using assms(1) by (rule hrep_node)
  have neq: "it_neq (iterator b (length ws)) eT" using assms(5,6) by (rule it_neq_other)
  have ptr: "ptr (iterator b (length ws)) = b" by (simp add: iterator_def)
  {
    assume i: "i \<noteq> length vs"
    have "returns (\<lambda>n. thenE (btree_end n h r) (\<lambda>e.
        if it_neq (iterator b (length ws)) e then Inr (iterator a i) else Inr (iterator b (length ws))))
        (iterator a i)"
      using assms(4) by (rule returns_thenE) (simp add: neq)
    moreover have "\<forall>n. ascend_inc (Suc n) h x (iterator b (length ws)) =
        thenE (btree_end n h r) (\<lambda>e.
        if it_neq (iterator b (length ws)) e then Inr (iterator a i) else Inr (iterator b (length ws)))"
      using nb na assms(7,8) i ptr by (simp add: ascend_inc_Suc cong: if_cong)
    ultimately show "returns (\<lambda>n. ascend_inc n h x (iterator b (length ws))) (iterator a i)"
      by (intro returns_Suc [of "\<lambda>n. ascend_inc n h x (iterator b (length ws))"]) simp
  }
  {
    assume i: "i = length vs" and y: "returns (\<lambda>n. ascend_inc n h x (iterator a i)) y"
    have "returns (\<lambda>n. thenE (btree_end n h r) (\<lambda>e.
        if it_neq (iterator b (length ws)) e then ascend_inc n h x (iterator a i)
        else Inr (iterator b (length ws)))) y"
      using assms(4) by (rule returns_thenE) (simp add: neq y)
    moreover have "\<forall>n. ascend_inc (Suc n) h x (iterator b (length ws)) =
        thenE (btree_end n h r) (\<lambda>e.
        if it_neq (iterator b (length ws)) e then ascend_inc n h x (iterator a i)
        else Inr (iterator b (length ws)))"
      using nb na assms(7,8) i ptr by (simp add: ascend_inc_Suc cong: if_cong)
    ultimately show "returns (\<lambda>n. ascend_inc n h x (iterator b (length ws))) y"
      by (intro returns_Suc [of "\<lambda>n. ascend_inc n h x (iterator b (length ws))"]) simp
  }
qed

lemma ascend_at_end:
  assumes "returns (\<lambda>n. btree_end n h r) eT" "node h (ptr eT) = Inr nd" "root nd = r"
  shows "returns (\<lambda>n. ascend_inc n h x eT) eT"
proof -
  have "returns (\<lambda>n. ascend_inc (Suc n) h x eT) eT"
    unfolding ascend_inc_Suc using assms(2,3)
    by (simp, intro returns_thenE [OF assms(1)]) (simp add: it_neq_def it_eq_def)
  then show ?thesis by (rule returns_Suc)
qed


lemma bst_slot:
  "bst (AT a vs cs) \<Longrightarrow> i < length cs \<Longrightarrow> x \<in> set (inorder (cs ! i)) \<Longrightarrow> lower_bound vs x = i"
  by simp

lemma climb:
  assumes "returns (\<lambda>n. btree_end n h r) eT" "pos eT = VIt z k" and "1 \<le> m"
  shows "hrep h r m p t \<Longrightarrow> t \<noteq> E \<Longrightarrow> shape m t \<Longrightarrow> bst t \<Longrightarrow> z \<notin> aset t \<Longrightarrow>
    x \<in> set (end_vals t) \<Longrightarrow>
    returns (\<lambda>n. ascend_inc n h x (iterator (taddr t) (length (vals t)))) y \<Longrightarrow>
    returns (\<lambda>n. ascend_inc n h x (end_pos t)) y"
proof (induction t arbitrary: p)
  case E
  then show ?case by simp
next
  case (AT a vs cs)
  let ?L = "length vs"
  have len: "?L < length cs" using AT.prems(3) by simp
  have mem: "cs ! ?L \<in> set cs" using len by simp
  show ?case
  proof (cases "cs ! ?L")
    case E
    then show ?thesis using AT.prems(7) by simp
  next
    case c: (AT b ws ds)
    have zb: "z \<noteq> b" using AT.prems(5) mem c by auto
    have x: "x \<in> set (end_vals (cs ! ?L))" using AT.prems(6) len c by simp
    then have "x \<in> set (inorder (cs ! ?L))" by (rule subsetD [OF set_end_vals])
    then have lb: "lower_bound vs x = ?L" using AT.prems(4) len by (rule bst_slot [rotated 2])
    have vne: "vs \<noteq> []" using AT.prems(3) mem c assms(3) by auto
    have "returns (\<lambda>n. ascend_inc n h x (iterator a ?L)) y" using AT.prems(7) by simp
    then have "returns (\<lambda>n. ascend_inc n h x (iterator b (length ws))) y"
      using ascend_step(2) [OF AT.prems(1) len c assms(1,2) zb lb vne] by simp
    then have "returns (\<lambda>n. ascend_inc n h x (end_pos (cs ! ?L))) y"
      using AT.IH [OF mem child_hrep [OF AT.prems(1) mem] _ child_shape [OF AT.prems(3) mem]
          child_bst [OF AT.prems(4) mem] _ x] AT.prems(5) mem c
      by auto
    then show ?thesis using len c by simp
  qed
qed

lemma first_node_valid:
  "hrep h r m p t \<Longrightarrow> t \<noteq> E \<Longrightarrow> shape m t \<Longrightarrow> vals t \<noteq> [] \<Longrightarrow>
   \<exists>nd. node h (first_node t) = Inr nd \<and> val nd \<noteq> []"
proof (induction t arbitrary: p)
  case E
  then show ?case by simp
next
  case (AT a vs cs)
  show ?case
  proof (cases "0 < length cs \<and> cs ! 0 \<noteq> E")
    case True
    then have mem: "cs ! 0 \<in> set cs" by simp
    have "vals (cs ! 0) \<noteq> []" using AT.prems(3) mem True by auto
    then have "\<exists>nd. node h (first_node (cs ! 0)) = Inr nd \<and> val nd \<noteq> []"
      using AT.IH [OF mem child_hrep [OF AT.prems(1) mem] _ child_shape [OF AT.prems(3) mem]] True
      by blast
    then show ?thesis using True by simp
  next
    case False
    then have "first_node (AT a vs cs) = a" by auto
    then show ?thesis using hrep_node [OF AT.prems(1)] AT.prems(4) by simp
  qed
qed

lemma incr_slot:
  assumes "hrep h r m p (AT a vs cs)" "shape m (AT a vs cs)" "j < length vs" "m < 2 ^ 31"
  shows "cs ! Suc j \<noteq> E \<Longrightarrow>
           returns (\<lambda>n. incr n h (iterator a j)) (iterator (first_node (cs ! Suc j)) 0)"
    and "cs ! Suc j = E \<Longrightarrow> Suc j \<noteq> length vs \<Longrightarrow>
           returns (\<lambda>n. incr n h (iterator a j)) (iterator a (Suc j))"
    and "cs ! Suc j = E \<Longrightarrow> Suc j = length vs \<Longrightarrow>
           returns (\<lambda>n. ascend_inc n h (vs ! j) (iterator a (Suc j))) y \<Longrightarrow>
           returns (\<lambda>n. incr n h (iterator a j)) y"
proof -
  let ?c = "cs ! Suc j"
  have na: "node h a = Inr \<lparr>root = r, parent = p, children = map addr_of cs, maxSize = m, val = vs\<rparr>"
    using assms(1) by (rule hrep_node)
  have len: "Suc j < length cs" using assms(2,3) by simp
  then have mem: "?c \<in> set cs" by simp
  have atj: "at (map addr_of cs) (Suc j) = Inr (addr_of ?c)" using len by (simp add: at_def)
  have st: "star h (VIt a j) = Inr (vs ! j)"
    using star_slot [OF assms(1,3)] by simp
  have vne: "vs \<noteq> []" using assms(3) by auto
  have "Suc j \<le> m" using assms(2,3) by simp
  then have ix: "int_index (Suc j) = Suc j" using assms(4) by (rule cap_int_index [rotated])
  have eq: "incr n h (iterator a j) =
      (case addr_of ?c of
         Some c' \<Rightarrow> thenE (leftmost n h c') (\<lambda>l.
                    thenE (node h l) (\<lambda>ln. Inr (position (val ln) l 0)))
       | None \<Rightarrow> if Suc j = length vs then ascend_inc n h (vs ! j) (iterator a (Suc j))
                 else Inr (iterator a (Suc j)))" for n
    using na st atj vne ix
    by (simp add: incr_def vdiff_def vsucc_def Let_def cong: option.case_cong)
  {
    assume ne: "?c \<noteq> E"
    then obtain b ws ds where c: "?c = AT b ws ds" by (cases ?c) auto
    have "returns (\<lambda>n. leftmost n h (taddr ?c)) (first_node ?c)"
      using child_hrep [OF assms(1) mem] ne child_shape [OF assms(2) mem] by (rule leftmost_first)
    moreover have "vals ?c \<noteq> []" using assms(2) mem ne by auto
    then obtain fn where "node h (first_node ?c) = Inr fn" "val fn \<noteq> []"
      using first_node_valid [OF child_hrep [OF assms(1) mem] ne child_shape [OF assms(2) mem]]
      by blast
    ultimately have "returns (\<lambda>n. thenE (leftmost n h b) (\<lambda>l.
        thenE (node h l) (\<lambda>ln. Inr (position (val ln) l 0)))) (iterator (first_node ?c) 0)"
      using c by (intro returns_thenE [where x = "first_node ?c"]) simp_all
    then show "returns (\<lambda>n. incr n h (iterator a j)) (iterator (first_node ?c) 0)"
      using c by (simp add: eq)
  }
  {
    assume "?c = E" "Suc j \<noteq> length vs"
    then show "returns (\<lambda>n. incr n h (iterator a j)) (iterator a (Suc j))"
      by (simp add: eq)
  }
  {
    assume "?c = E" "Suc j = length vs" "returns (\<lambda>n. ascend_inc n h (vs ! j) (iterator a (Suc j))) y"
    then show "returns (\<lambda>n. incr n h (iterator a j)) y"
      by (simp add: eq)
  }
qed

lemma interleave_drop_step:
  "j < length VS \<Longrightarrow> j < length CS \<Longrightarrow>
   interleave (drop j CS) (drop j VS) =
     CS ! j @ VS ! j # interleave (drop (Suc j) CS) (drop (Suc j) VS)"
  by (simp add: Cons_nth_drop_Suc [symmetric])

lemma interleave_drop_last:
  "length VS \<le> j \<Longrightarrow> j < length CS \<Longrightarrow>
   interleave (drop j CS) (drop j VS) = CS ! j @ concat (drop (Suc j) CS)"
  by (simp add: Cons_nth_drop_Suc [symmetric])

lemma shape_beyond:
  "shape m (AT a vs cs) \<Longrightarrow> concat (drop (Suc (length vs)) (map poss cs)) = []"
proof -
  assume s: "shape m (AT a vs cs)"
  show ?thesis
  proof (cases "length vs < m")
    case True
    then have "set cs \<subseteq> {E}" using s shape_no_children by blast
    then have "\<forall>c\<in>set (drop (Suc (length vs)) cs). poss c = []"
      using set_drop_subset [of "Suc (length vs)" cs] by auto
    then show ?thesis by (simp add: drop_map)
  next
    case False
    then have "length cs = Suc (length vs)" using s by simp
    then show ?thesis by simp
  qed
qed



lemma end_pos_where:
  assumes "hrep h r m p (AT a vs cs)" "length vs < length cs" "pos (end_pos (AT a vs cs)) = VIt z k0"
  shows "z = a \<or> z \<in> aset (cs ! length vs)"
proof (cases "cs ! length vs = E")
  case True
  then show ?thesis using assms(3) by simp
next
  case False
  let ?c = "cs ! length vs"
  have mem: "?c \<in> set cs" using assms(2) by simp
  obtain x where "end_pos ?c = iterator x (length (val (nodes h ! x)))" "x \<in> aset ?c"
    using end_pos_valid [OF child_hrep [OF assms(1) mem] False] by blast
  then show ?thesis using assms(2,3) False by simp
qed

lemma succ_chain:
  assumes eT: "returns (\<lambda>n. btree_end n h r) eT" "pos eT = VIt z k0" and m: "1 \<le> m"
    and m31: "m < 2 ^ 31"
  shows "hrep h r m p t \<Longrightarrow> shape m t \<Longrightarrow> bst t \<Longrightarrow> adistinct t \<Longrightarrow> t \<noteq> E \<Longrightarrow>
     end_pos t = eT \<or> z \<notin> aset t \<Longrightarrow>
     \<forall>x\<in>set (end_vals t). returns (\<lambda>n. ascend_inc n h x (end_pos t)) k \<Longrightarrow>
     chain (\<lambda>x y. returns (\<lambda>n. incr n h x) y) (poss t) k"
proof (induction t arbitrary: p k)
  case E
  then show ?case by simp
next
  case (AT a vs cs)
  let ?t = "AT a vs cs"
  let ?R = "\<lambda>x y. returns (\<lambda>n. incr n h x) y"
  let ?L = "length vs"
  let ?CS = "map poss cs"
  let ?VS = "map (iterator a) [0..<?L]"
  note prems = AT.prems and IH = AT.IH
  have len: "?L < length cs" using prems(2) by simp
  have anin: "\<forall>c\<in>set cs. a \<notin> aset c" using prems(4) by simp
  have K1: "chain ?R (poss (cs ! i)) (if i < ?L then iterator a i else k)" if i: "i \<le> ?L" for i
  proof (cases "cs ! i")
    case E
    then show ?thesis by simp
  next
    case c: (AT b ws ds)
    have il: "i < length cs" using i len by simp
    have mem: "cs ! i \<in> set cs" using il by simp
    have ne: "cs ! i \<noteq> E" using c by simp
    note hc = child_hrep [OF prems(1) mem] and sc = child_shape [OF prems(2) mem]
      and bc = child_bst [OF prems(3) mem] and dc = child_adistinct [OF prems(4) mem]
    show ?thesis
    proof (cases "i < ?L")
      case True
      have zc: "z \<notin> aset (cs ! i)"
      proof (cases "z \<notin> aset ?t")
        case True
        then show ?thesis using mem by auto
      next
        case False
        then have "end_pos ?t = eT" using prems(6) by blast
        then have "pos (end_pos ?t) = VIt z k0" using eT(2) by simp
        then have "z = a \<or> z \<in> aset (cs ! ?L)" using end_pos_where [OF prems(1) len] by blast
        moreover have "aset (cs ! i) \<inter> aset (cs ! ?L) = {}" using prems(4) il len True by simp
        ultimately show ?thesis using anin mem by auto
      qed
      have Hc: "\<forall>x\<in>set (end_vals (cs ! i)). returns (\<lambda>n. ascend_inc n h x (end_pos (cs ! i))) (iterator a i)"
      proof
        fix x assume x: "x \<in> set (end_vals (cs ! i))"
        then have "x \<in> set (inorder (cs ! i))" by (rule subsetD [OF set_end_vals])
        then have lb: "lower_bound vs x = i" using prems(3) il by (rule bst_slot [rotated 2])
        have zb: "z \<noteq> b" using zc c by auto
        have vne: "vs \<noteq> []" using True by auto
        have "returns (\<lambda>n. ascend_inc n h x (iterator b (length ws))) (iterator a i)"
          using ascend_step(1) [OF prems(1) il c eT zb lb vne] True by simp
        then have "returns (\<lambda>n. ascend_inc n h x (iterator (taddr (cs ! i)) (length (vals (cs ! i))))) (iterator a i)"
          using c by simp
        then show "returns (\<lambda>n. ascend_inc n h x (end_pos (cs ! i))) (iterator a i)"
          by (rule climb [OF eT m hc ne sc bc zc x])
      qed
      have "chain ?R (poss (cs ! i)) (iterator a i)"
        using IH [OF mem hc sc bc dc ne disjI2 [OF zc] Hc] .
      then show ?thesis using True by simp
    next
      case False
      then have iL: "i = ?L" using i by simp
      have epos: "end_pos (cs ! i) = end_pos ?t" and evals: "end_vals (cs ! i) = end_vals ?t"
        using iL len c by simp_all
      have side: "end_pos (cs ! i) = eT \<or> z \<notin> aset (cs ! i)"
        using prems(6) mem unfolding epos by auto
      have Hc: "\<forall>x\<in>set (end_vals (cs ! i)). returns (\<lambda>n. ascend_inc n h x (end_pos (cs ! i))) k"
        unfolding epos evals using prems(7) .
      have "chain ?R (poss (cs ! i)) k"
        using IH [OF mem hc sc bc dc ne side Hc] .
      then show ?thesis using False by simp
    qed
  qed
  have K2: "?R (iterator a j) (hd (interleave (drop (Suc j) ?CS) (drop (Suc j) ?VS) @ [k]))"
    if j: "j < ?L" for j
  proof -
    let ?c = "cs ! Suc j"
    let ?rest = "interleave (drop (Suc j) ?CS) (drop (Suc j) ?VS)"
    have sl: "Suc j < length cs" using j len by simp
    then have mem: "?c \<in> set cs" by simp
    have dropCS: "drop (Suc j) ?CS = poss ?c # drop (Suc (Suc j)) ?CS"
      using sl by (simp add: Cons_nth_drop_Suc [symmetric])
    show ?thesis
    proof (cases "?c = E")
      case False
      have "vals ?c \<noteq> []" using prems(2) mem False by auto
      then have fp: "poss ?c \<noteq> []" "hd (poss ?c) = iterator (first_node ?c) 0"
        using first_poss [OF False child_shape [OF prems(2) mem]] by simp_all
      have "hd (?rest @ [k]) = hd (poss ?c)"
        unfolding dropCS using fp(1) by (rule interleave_Cons_hd)
      then show ?thesis using incr_slot(1) [OF prems(1,2) j m31 False] fp(2) by simp
    next
      case True
      show ?thesis
      proof (cases "Suc j = ?L")
        case False
        then have sj: "Suc j < ?L" using j by simp
        have "?rest = ?CS ! Suc j @ ?VS ! Suc j # interleave (drop (Suc (Suc j)) ?CS) (drop (Suc (Suc j)) ?VS)"
          using sj sl by (intro interleave_drop_step) simp_all
        then have "hd (?rest @ [k]) = iterator a (Suc j)" using True sj sl by simp
        then show ?thesis using incr_slot(2) [OF prems(1,2) j m31 True False] by simp
      next
        case eq: True
        have "?rest = ?CS ! Suc j @ concat (drop (Suc (Suc j)) ?CS)"
          using eq sl by (intro interleave_drop_last) simp_all
        then have "?rest = []" using True sl eq shape_beyond [OF prems(2)] by simp
        then have hdk: "hd (?rest @ [k]) = k" by simp
        have "vs ! j \<in> set (end_vals ?t)" using True eq j by auto
        moreover have "end_pos ?t = iterator a (Suc j)" using True eq by auto
        ultimately have "returns (\<lambda>n. ascend_inc n h (vs ! j) (iterator a (Suc j))) k"
          using prems(7) by metis
        then show ?thesis using incr_slot(3) [OF prems(1,2) j m31 True eq] hdk by simp
      qed
    qed
  qed
  have main: "j \<le> ?L \<Longrightarrow> chain ?R (interleave (drop j ?CS) (drop j ?VS)) k" for j
  proof (induction "?L - j" arbitrary: j)
    case 0
    then have j: "j = ?L" by simp
    have "interleave (drop j ?CS) (drop j ?VS) = ?CS ! j @ concat (drop (Suc j) ?CS)"
      using j len by (intro interleave_drop_last) simp_all
    then have "interleave (drop j ?CS) (drop j ?VS) = poss (cs ! ?L)"
      using j len shape_beyond [OF prems(2)] by simp
    then show ?case using K1 [of ?L] by simp
  next
    case (Suc d)
    then have j: "j < ?L" by simp
    have "interleave (drop j ?CS) (drop j ?VS) =
        ?CS ! j @ ?VS ! j # interleave (drop (Suc j) ?CS) (drop (Suc j) ?VS)"
      using j len by (intro interleave_drop_step) simp_all
    then have split: "interleave (drop j ?CS) (drop j ?VS) =
        poss (cs ! j) @ iterator a j # interleave (drop (Suc j) ?CS) (drop (Suc j) ?VS)"
      using j len by simp
    have ih: "chain ?R (interleave (drop (Suc j) ?CS) (drop (Suc j) ?VS)) k"
      using Suc(1) [of "Suc j"] Suc(2) j by simp
    have k1: "chain ?R (poss (cs ! j)) (iterator a j)" using K1 [of j] j by simp
    show ?case unfolding split chain_append using k1 K2 [OF j] ih by simp
  qed
  show ?case using main [of 0] by simp
qed


section \<open>The traversal\<close>


lemma collect_Suc:
  "collect (Suc n) h tree it out =
     thenE (btree_end n h tree) (\<lambda>e.
       if it_neq it e then
         thenE (star h (pos it)) (\<lambda>x.
         thenE (incr n h it) (\<lambda>it'. collect n h tree it' (out @ [x])))
       else Inr out)"
  by simp

declare collect.simps(2) [simp del]

lemma collect_chain:
  assumes eT: "returns (\<lambda>n. btree_end n h b) eT"
  shows "chain (\<lambda>x y. returns (\<lambda>n. incr n h x) y) ps eT \<Longrightarrow> \<forall>q\<in>set ps. it_neq q eT \<Longrightarrow>
    map (\<lambda>q. star h (pos q)) ps = map Inr xs \<Longrightarrow>
    returns (\<lambda>n. collect n h b (hd (ps @ [eT])) out) (out @ xs)"
proof (induction ps arbitrary: xs out)
  case Nil
  have "returns (\<lambda>n. thenE (btree_end n h b) (\<lambda>e. if it_neq eT e then
         thenE (star h (pos eT)) (\<lambda>x.
         thenE (incr n h eT) (\<lambda>it'. collect n h b it' (out @ [x]))) else Inr out)) out"
    using eT by (rule returns_thenE) (simp add: it_neq_def it_eq_def)
  then have "returns (\<lambda>n. collect (Suc n) h b eT out) out" by (simp add: collect_Suc)
  then have "returns (\<lambda>n. collect n h b eT out) out" by (rule returns_Suc)
  then show ?case using Nil by simp
next
  case (Cons q ps)
  obtain x xs' where xs: "xs = x # xs'" using Cons.prems(3) by (cases xs) auto
  have st: "star h (pos q) = Inr x" and rest: "map (\<lambda>q. star h (pos q)) ps = map Inr xs'"
    using Cons.prems(3) xs by simp_all
  have nq: "it_neq q eT" using Cons.prems(2) by simp
  have step: "returns (\<lambda>n. incr n h q) (hd (ps @ [eT]))"
    and ch: "chain (\<lambda>x y. returns (\<lambda>n. incr n h x) y) ps eT"
    using Cons.prems(1) by simp_all
  have nps: "\<forall>q\<in>set ps. it_neq q eT" using Cons.prems(2) by simp
  have ih: "returns (\<lambda>n. collect n h b (hd (ps @ [eT])) (out @ [x])) ((out @ [x]) @ xs')"
    using Cons.IH [OF ch nps rest] .
  have "returns (\<lambda>n. thenE (incr n h q) (\<lambda>it'. collect n h b it' (out @ [x]))) ((out @ [x]) @ xs')"
    using step ih by (rule returns_thenE)
  then have "returns (\<lambda>n. thenE (btree_end n h b) (\<lambda>e. if it_neq q e then
         thenE (star h (pos q)) (\<lambda>x.
         thenE (incr n h q) (\<lambda>it'. collect n h b it' (out @ [x]))) else Inr out)) ((out @ [x]) @ xs')"
    using eT nq st by (intro returns_thenE [where x = eT]) simp_all
  then have "returns (\<lambda>n. collect (Suc n) h b q out) ((out @ [x]) @ xs')" by (simp add: collect_Suc)
  then have "returns (\<lambda>n. collect n h b q out) ((out @ [x]) @ xs')" by (rule returns_Suc)
  then show ?case using xs by simp
qed

lemma btree_end_inv:
  "tree_inv h b m t \<Longrightarrow> vals t \<noteq> [] \<Longrightarrow> returns (\<lambda>n. btree_end n h b) (end_pos t)"
  using nodeEnd_end [of h b m None t] tree_inv_rootNode [of h b m t]
  by (simp add: btree_end_def tree_inv_def)

lemma btree_begin_inv:
  assumes "tree_inv h b m t" and "vals t \<noteq> []"
  shows "returns (\<lambda>n. btree_begin n h b) (hd (poss t @ [end_pos t]))"
proof -
  have inv: "hrep h b m None t" "t \<noteq> E" "shape m t" "1 \<le> m"
    using assms(1) by (simp_all add: tree_inv_def)
  have r: "returns (\<lambda>n. btree_begin n h b) (iterator (first_node t) 0)"
    using nodeBegin_first [OF inv(1,2,3) assms(2)] tree_inv_rootNode [OF assms(1)]
    by (simp add: btree_begin_def)
  have "poss t \<noteq> []" "hd (poss t) = iterator (first_node t) 0"
    using first_poss [OF inv(2,3) assms(2)] by simp_all
  then show ?thesis using r by simp
qed

text \<open>
  A tree whose root holds no element: the root has no child, and \<open>begin()\<close> and \<open>end()\<close> are
  the root with the null vector iterator.
\<close>

lemma empty_root:
  assumes "tree_inv h b m t" and "vals t = []"
  shows "inorder t = []"
    and "btree_begin (Suc n) h b = Inr \<lparr>ptr = taddr t, pos = VNull\<rparr>"
    and "btree_end (Suc n) h b = Inr \<lparr>ptr = taddr t, pos = VNull\<rparr>"
proof -
  have inv: "hrep h b m None t" "t \<noteq> E" "shape m t" "1 \<le> m"
    using assms(1) by (simp_all add: tree_inv_def)
  obtain a vs cs where t: "t = AT a vs cs" using inv(2) by (cases t) auto
  have vs: "vs = []" using assms(2) t by simp
  then have "length vs < m" using inv(4) by simp
  then have e: "set cs \<subseteq> {E}" using inv(3) shape_no_children unfolding t by blast
  have len: "0 < length cs" using inv(3) t by simp
  then have c0: "cs ! 0 = E" using e all_E_nth by blast
  have at0: "at (map addr_of cs) 0 = Inr None" using len c0 by (simp add: at_def)
  have nd: "node h a = Inr \<lparr>root = b, parent = None, children = map addr_of cs, maxSize = m, val = []\<rparr>"
    using hrep_node [of h b m None a vs cs] inv(1) t vs by simp
  have "set (inorder (AT a vs cs)) = set vs" using e by (rule all_E_inorder_AT)
  then show "inorder t = []" using t vs by simp
  show "btree_begin (Suc n) h b = Inr \<lparr>ptr = taddr t, pos = VNull\<rparr>"
    using tree_inv_rootNode [OF assms(1)] t nd at0 by (simp add: btree_begin_def position_Nil)
  show "btree_end (Suc n) h b = Inr \<lparr>ptr = taddr t, pos = VNull\<rparr>"
    using tree_inv_rootNode [OF assms(1)] t nd at0 by (simp add: btree_end_def position_Nil)
qed

lemma traverse_inv:
  assumes "tree_inv h b m t"
  shows "returns (\<lambda>n. traverse n h b) (inorder t)"
proof (cases "vals t = []")
  case True
  have "\<forall>n. traverse (Suc (Suc n)) h b = Inr []"
    using empty_root(2,3) [OF assms True]
    by (simp add: traverse_def collect_Suc it_neq_def it_eq_def)
  then have "returns (\<lambda>n. traverse n h b) []" by (rule returns_SucSucI)
  then show ?thesis using empty_root(1) [OF assms True] by simp
next
  case ne: False
  let ?eT = "end_pos t"
  have inv: "hrep h b m None t" "t \<noteq> E" "shape m t" "bst t" "adistinct t" "1 \<le> m"
    "m < 2 ^ 31"
    using assms by (simp_all add: tree_inv_def)
  have eT: "returns (\<lambda>n. btree_end n h b) ?eT" using assms ne by (rule btree_end_inv)
  obtain y where y: "?eT = iterator y (length (val (nodes h ! y)))" "y \<in> aset t"
    using end_pos_valid [OF inv(1,2)] by blast
  have py: "pos ?eT = VIt y (length (val (nodes h ! y)))" using y(1) by simp
  have ny: "node h (ptr ?eT) = Inr (nodes h ! y)" "root (nodes h ! y) = b"
    using aset_root [OF inv(1) y(2)] y(1) by (simp_all add: node_def)
  have H: "\<forall>x\<in>set (end_vals t). returns (\<lambda>n. ascend_inc n h x ?eT) ?eT"
    using ascend_at_end [OF eT ny] by simp
  have ch: "chain (\<lambda>x y. returns (\<lambda>n. incr n h x) y) (poss t) ?eT"
    using succ_chain [OF eT py inv(6,7) inv(1,3,4,5,2) disjI1 [OF refl] H] .
  have nq: "\<forall>q\<in>set (poss t). it_neq q ?eT"
  proof
    fix q assume "q \<in> set (poss t)"
    then obtain x i where "q = iterator x i" "i < length (val (nodes h ! x))"
      using poss_valid [OF inv(1)] by blast
    then show "it_neq q ?eT" using py by (auto simp: it_neq_def it_eq_def)
  qed
  have "returns (\<lambda>n. collect n h b (hd (poss t @ [?eT])) []) ([] @ inorder t)"
    using collect_chain [OF eT ch nq star_poss [OF inv(1)]] .
  then have "returns (\<lambda>n. thenE (btree_begin n h b) (\<lambda>it. collect n h b it [])) (inorder t)"
    using btree_begin_inv [OF assms ne]
    by (intro returns_thenE [where x = "hd (poss t @ [?eT])"]) simp_all
  then show ?thesis by (simp add: traverse_def)
qed

lemma inorder_sorted_list:
  "bst t \<Longrightarrow> inorder t = sorted_list_of_set (set (inorder t))"
proof -
  assume "bst t"
  then have "sorted_wrt (<) (inorder t)" by (rule sorted_inorder)
  then have "sorted (inorder t)" "distinct (inorder t)"
    using strict_sorted_iff by auto
  then show ?thesis by (simp add: sorted_list_of_set.idem_if_sorted_distinct)
qed


section \<open>The position an insertion returns\<close>





lemma returnsD: "returns f y \<Longrightarrow> \<exists>N. \<forall>n\<ge>N. f n = Inr y"
  by (simp add: returns_def)



section \<open>The fill policy on the store\<close>



lemma store_eqI: "nodes h = nodes h' \<Longrightarrow> btrees h = btrees h' \<Longrightarrow> h = (h' :: 'a store)"
  by simp







section \<open>Copies\<close>



lemma length_relabels [simp]: "length (relabels f cs) = length cs"
  by (induction cs arbitrary: f) auto








lemma sum_take_mono: "i \<le> j \<Longrightarrow> sum_list (take i xs) \<le> sum_list (take j (xs :: nat list))"
proof (induction xs arbitrary: i j)
  case Nil
  then show ?case by simp
next
  case (Cons x xs)
  then show ?case by (cases i; cases j) auto
qed

lemma sum_take_le: "sum_list (take i xs) \<le> sum_list (xs :: nat list)"
  using sum_take_mono [of i "length xs" xs] by (cases "i \<le> length xs") auto





















lemma store_simps2 [simp]:
  "nodes (set_root h a b) = (nodes h)[a := (nodes h ! a)\<lparr>root := b\<rparr>]"
  "btrees (set_root h a b) = btrees h"
  "nodes (set_parent h a p) = (nodes h)[a := (nodes h ! a)\<lparr>parent := p\<rparr>]"
  "btrees (set_parent h a p) = btrees h"
  "nodes (set_rootNode h t r) = nodes h"
  "btrees (set_rootNode h t r) = (btrees h)[t := r]"
  by (simp_all add: set_root_def set_parent_def set_rootNode_def)



























section \<open>Evaluating the code\<close>

lemmas eval_defs = nodeInsert.simps(2) build_def btree_new_def make_Node_def empty_store_def
  btree_insert_def rootNode_def node_def at_def set_val_def lower_bound_def btree_find_def
  position_def vit_def iterator_def set_child_def btree_cfind_def cNodeFind_def constE_def
  btree_end_def btree_begin_def star_def decr_def btree_cbegin_def btree_cend_def
  cNodeBegin_def cNodeEnd_def it_eq_def cit_eq_def as_const_def dump_def cit_neq_def
  vec_insert_def wrap_size_t_def to_unsigned_def int_index_def vdiff_def vsucc_def vpred_def

lemma fuel_numerals:
  "(10 :: nat) = Suc (Suc (Suc (Suc (Suc (Suc (Suc (Suc (Suc (Suc 0)))))))))"
  "(20 :: nat) = Suc (Suc (Suc (Suc (Suc (Suc (Suc (Suc (Suc (Suc
                 (Suc (Suc (Suc (Suc (Suc (Suc (Suc (Suc (Suc (Suc 0)))))))))))))))))))"
  by simp_all

text \<open>
  Where the bound comes from: in a node that holds \<open>2^31\<close> elements, \<open>operator++\<close> at the last
  element computes \<open>offset = 2^31\<close>, which an \<open>int\<close> does not hold, and reads a child slot
  far outside the vector.
\<close>

lemma incr_offset_narrows:
  assumes "node h a = Inr nd" and "length (val nd) = 2 ^ 31"
    and "length (children nd) = 2 ^ 31 + 1"
  shows "incr n h (iterator a (2 ^ 31 - 1)) = Inl OutOfRange"
proof -
  have ne: "val nd \<noteq> []" using assms(2) by auto
  have st: "star h (VIt a 2147483647) = Inr (val nd ! 2147483647)"
    using assms(1,2) by (simp add: star_def at_def)
  have ix: "int_index (2147483647 + 1) = 18446744071562067968"
    by (simp add: int_index_def)
  show ?thesis
    using assms st ne ix by (simp add: incr_def vdiff_def at_def)
qed


section \<open>The claims\<close>

text \<open>
  C1, with the capacity in range: for every capacity \<open>cap\<close> from 1 to \<open>2^31 - 1\<close> and every
  sequence \<open>xs\<close> of insertions into a new tree, the loop that steps a position from
  \<open>begin()\<close> to \<open>end()\<close> returns, and what it collects is the sorted list of the distinct
  elements of \<open>xs\<close>. Below \<open>2^31\<close> every slot count and buffer index fits the \<open>size_t\<close>,
  \<open>unsigned\<close> and \<open>int\<close> the code keeps it in.
\<close>

theorem traversal_is_sorted_set:
  "1 \<le> cap \<Longrightarrow> cap < 2 ^ 31 \<Longrightarrow>
   \<exists>N. \<forall>n\<ge>N. thenE (build n cap xs) (\<lambda>(h, t). traverse n h t)
                = Inr (sorted_list_of_set (set xs))"
proof -
  assume "1 \<le> cap" "cap < 2 ^ 31"
  then obtain h t where b: "returns (\<lambda>n. build n cap xs) (h, 0)"
    and inv: "tree_inv h 0 cap t" and s: "set (inorder t) = set xs"
    using build_inv by blast
  have "bst t" using inv by (simp add: tree_inv_def)
  then have "inorder t = sorted_list_of_set (set xs)"
    using inorder_sorted_list s by fastforce
  then have "returns (\<lambda>n. traverse n h 0) (sorted_list_of_set (set xs))"
    using traverse_inv [OF inv] by simp
  then have "returns (\<lambda>n. thenE (build n cap xs) (\<lambda>(h, t). traverse n h t))
     (sorted_list_of_set (set xs))"
    using b by (intro returns_thenE [where x = "(h, 0)"]) simp_all
  then show ?thesis by (rule returnsD)
qed

theorem traversal_is_sorted_set_witness:
  "\<exists>N. \<forall>n\<ge>N. thenE (build n 3 [5, 3, 8, 1, 4, 7, 2, 6, 3 :: int]) (\<lambda>(h, t). traverse n h t)
                = Inr [1, 2, 3, 4, 5, 6, 7, 8]"
proof -
  have "sorted_list_of_set (set [5, 3, 8, 1, 4, 7, 2, 6, 3 :: int]) = [1, 2, 3, 4, 5, 6, 7, 8]"
    by code_simp
  then show ?thesis
    using traversal_is_sorted_set [of 3 "[5, 3, 8, 1, 4, 7, 2, 6, 3 :: int]"] by simp
qed

text \<open>
  The claim as it is written, for any capacity of at least 1, fails at the largest one:
  with \<open>maxNodeElems = SIZE_MAX\<close> the constructor computes \<open>size + 1 = 0\<close> child slots, both
  insertions go into the root buffer, and \<open>begin()\<close> reads \<open>children[0]\<close> of the empty
  vector. No amount of fuel makes the traversal return.
\<close>

theorem traversal_max_capacity_out_of_range:
  "thenE (build 3 18446744073709551615 [2, 1 :: int]) (\<lambda>(h, t). traverse 3 h t)
     = Inl OutOfRange \<and>
   \<not> returns (\<lambda>n. thenE (build n 18446744073709551615 [2, 1 :: int])
                      (\<lambda>(h, t). traverse n h t)) [1, 2]"
proof -
  have run: "thenE (build (Suc n) 18446744073709551615 [2, 1 :: int])
      (\<lambda>(h, t). traverse (Suc n) h t) = Inl OutOfRange" for n
    by (simp add: eval_defs traverse_def)
  have "\<not> returns (\<lambda>n. thenE (build n 18446744073709551615 [2, 1 :: int])
                      (\<lambda>(h, t). traverse n h t)) [1, 2]"
  proof
    assume "returns (\<lambda>n. thenE (build n 18446744073709551615 [2, 1 :: int])
                      (\<lambda>(h, t). traverse n h t)) [1, 2]"
    then obtain N where "\<forall>n\<ge>N. thenE (build n 18446744073709551615 [2, 1 :: int])
                      (\<lambda>(h, t). traverse n h t) = Inr [1, 2]"
      by (auto simp: returns_def)
    then have "thenE (build (Suc N) 18446744073709551615 [2, 1 :: int])
                      (\<lambda>(h, t). traverse (Suc N) h t) = Inr [1, 2]" by simp
    then show False using run [of N] by simp
  qed
  then show ?thesis using run [of 2] by (simp add: numeral_3_eq_3)
qed





text \<open>
  C8, as the code compares: the four \<open>operator==\<close> compare the vector iterators only. Take
  the positions that the tree makes for index \<open>i\<close> of node \<open>a\<close> and index \<open>j\<close> of node \<open>b\<close>,
  one mutable and one read-only, in either order. They are equal exactly when both nodes
  hold no element, whichever nodes they are, or both hold elements and node and index
  agree; \<open>!=\<close> is the negation. For nodes that hold elements this rests on the assumption
  made for \<open>valIterator\<close>: the buffers of two nodes neither overlap nor touch.
\<close>

theorem mixed_equality:
  "(it_eq_const (position (val (nodes h ! a)) a i) (as_const (position (val (nodes h ! b)) b j))
      \<longleftrightarrow> val (nodes h ! a) = [] \<and> val (nodes h ! b) = [] \<or>
          val (nodes h ! a) \<noteq> [] \<and> val (nodes h ! b) \<noteq> [] \<and> a = b \<and> i = j) \<and>
   (cit_eq_mut (as_const (position (val (nodes h ! b)) b j)) (position (val (nodes h ! a)) a i)
      \<longleftrightarrow> val (nodes h ! a) = [] \<and> val (nodes h ! b) = [] \<or>
          val (nodes h ! a) \<noteq> [] \<and> val (nodes h ! b) \<noteq> [] \<and> a = b \<and> i = j) \<and>
   (it_neq_const (position (val (nodes h ! a)) a i) (as_const (position (val (nodes h ! b)) b j))
      \<longleftrightarrow> \<not> it_eq_const (position (val (nodes h ! a)) a i)
                          (as_const (position (val (nodes h ! b)) b j))) \<and>
   (cit_neq_mut (as_const (position (val (nodes h ! b)) b j)) (position (val (nodes h ! a)) a i)
      \<longleftrightarrow> \<not> cit_eq_mut (as_const (position (val (nodes h ! b)) b j))
                         (position (val (nodes h ! a)) a i))"
  by (auto simp: it_eq_const_def cit_eq_mut_def it_neq_const_def cit_neq_mut_def as_const_def
      position_def vit_def)

text \<open>
  On the tree with capacity 1 and the insertions 5, 3: the root (node 0) holds 5 and its
  child (node 1) holds 3.
\<close>

theorem mixed_equality_witness:
  "it_eq_const (position [5 :: int] 0 1) (as_const (position [5 :: int] 0 1)) \<and>
   cit_eq_mut (as_const (position [5 :: int] 0 1)) (position [5 :: int] 0 1) \<and>
   \<not> it_eq_const (position [5 :: int] 0 1) (as_const (position [3 :: int] 1 1)) \<and>
   \<not> it_eq_const (position [5 :: int] 0 1) (as_const (position [5 :: int] 0 0)) \<and>
   it_neq_const (position [5 :: int] 0 1) (as_const (position [5 :: int] 0 0)) \<and>
   cit_neq_mut (as_const (position [3 :: int] 1 1)) (position [5 :: int] 0 1)"
proof -
  let ?h = "\<lparr>nodes =
      [\<lparr>root = 0, parent = None, children = [Some 1, None], maxSize = 1, val = [5 :: int]\<rparr>,
       \<lparr>root = 0, parent = Some 0, children = [None, None], maxSize = 1, val = [3]\<rparr>],
     btrees = [Some 0]\<rparr>"
  show ?thesis
    using mixed_equality [of ?h 0 1 0 1] mixed_equality [of ?h 0 1 1 1]
      mixed_equality [of ?h 0 1 0 0]
    by simp
qed

text \<open>
  The claim as it is written, equality exactly when node and index agree, fails on two
  trees that hold no element: \<open>begin()\<close> of the first and \<open>cbegin()\<close> of the second are
  positions in different nodes (the roots, nodes 0 and 1), both vector iterators are null,
  and the positions compare equal.
\<close>

theorem empty_trees_positions_equal:
  "btree_begin (Suc 0) (fst (btree_new (fst (btree_new (empty_store :: int store) 3)) 3)) 0
     = Inr \<lparr>ptr = 0, pos = VNull\<rparr> \<and>
   btree_cbegin (Suc 0) (fst (btree_new (fst (btree_new (empty_store :: int store) 3)) 3)) 1
     = Inr \<lparr>cptr = 1, cpos = VNull\<rparr> \<and>
   it_eq_const \<lparr>ptr = 0, pos = VNull\<rparr> \<lparr>cptr = 1, cpos = VNull\<rparr> \<and>
   cit_eq_mut \<lparr>cptr = 1, cpos = VNull\<rparr> \<lparr>ptr = 0, pos = VNull\<rparr> \<and>
   \<not> it_neq_const \<lparr>ptr = 0, pos = VNull\<rparr> \<lparr>cptr = 1, cpos = VNull\<rparr> \<and>
   \<not> cit_neq_mut \<lparr>cptr = 1, cpos = VNull\<rparr> \<lparr>ptr = 0, pos = VNull\<rparr>"
  by (simp add: eval_defs it_eq_const_def cit_eq_mut_def it_neq_const_def cit_neq_mut_def
      nth_append Let_def)



text \<open>
  Whenever the search point of \<open>nodeFind\<close> (or \<open>cNodeFind\<close>) is the size of the buffer, the
  element there is read before anything else is looked at.
\<close>

lemma nodeFind_search_point_unchecked:
  "a < length (nodes h) \<Longrightarrow> lower_bound (val (nodes h ! a)) e = length (val (nodes h ! a)) \<Longrightarrow>
   nodeFind (Suc n) h a e = Inl OutOfRange \<and> cNodeFind (Suc n) h a e = Inl OutOfRange"
  by (simp add: node_def at_def cNodeFind_def constE_def)

text \<open>
  C3 (find returns a position at \<open>x\<close> iff \<open>x\<close> was inserted, the end sentinel otherwise).
  The code does not do this: with capacity 1 and the insertions 1, 2 the element 2 lives in
  the child behind slot 1 of the root; \<open>find(2)\<close> searches the root's buffer \<open>[1]\<close>, gets the
  search point 1, which is the buffer's size, and reads the element there.
\<close>

theorem find_inserted_element_out_of_range:
  "thenE (build (Suc (Suc n)) 1 [1, 2 :: int]) (\<lambda>(h, t). btree_find (Suc m) h t 2)
     = Inl OutOfRange"
  by (simp add: eval_defs)

text \<open>
  C4 (the search point is checked to be a valid index before the element there is
  compared). The code has no such check: with capacity 3 and the single element 5, both
  overloads of \<open>find(9)\<close> read the element at index 1 of the buffer \<open>[5]\<close>; on a tree with no
  element they read index 0 of the empty buffer.
\<close>

theorem find_absent_element_out_of_range:
  "thenE (build (Suc n) 3 [5 :: int]) (\<lambda>(h, t). btree_find (Suc m) h t 9) = Inl OutOfRange \<and>
   thenE (build (Suc n) 3 [5 :: int]) (\<lambda>(h, t). btree_cfind (Suc m) h t 9) = Inl OutOfRange \<and>
   thenE (build n 3 []) (\<lambda>(h, t). btree_find (Suc m) h t (9::int)) = Inl OutOfRange \<and>
   thenE (build n 3 []) (\<lambda>(h, t). btree_cfind (Suc m) h t (9::int)) = Inl OutOfRange"
  by (simp add: eval_defs)

text \<open>
  C5 (stepping backward from end reaches begin after N steps). \<open>operator--\<close> starts with
  \<open>T temp = *pos\<close>; at the end position \<open>pos\<close> is \<open>val.end()\<close>, so the first backward step
  from end reads one past the last element, here on the tree holding only 5.
\<close>

theorem decrement_end_out_of_range:
  "thenE (build (Suc n) 3 [5 :: int]) (\<lambda>(h, t). thenE (btree_end (Suc m) h t) (decr k h))
     = Inl OutOfRange"
  by (simp add: eval_defs)

text \<open>
  C6 (the dump is the in-order sequence, space-separated). On the example of the
  specification, capacity 3 and the insertions 5, 3, 8, 1, 4, 7, 2, 6, the stream receives
  the first element twice: \<open>1 1 2 3 4 5 6 7 8\<close>.
\<close>

theorem dump_example_repeats_first_element:
  "thenE (build 10 3 [5, 3, 8, 1, 4, 7, 2, 6 :: int]) (\<lambda>(h, t). dump 20 h t []) =
   Inr [Elem 1, Text '' '', Elem 1, Text '' '', Elem 2, Text '' '', Elem 3, Text '' '',
        Elem 4, Text '' '', Elem 5, Text '' '', Elem 6, Text '' '', Elem 7, Text '' '', Elem 8]"
  unfolding fuel_numerals
  by (simp add: eval_defs cincr_def incr_def as_mutable_def ascend_inc.simps(2) Let_def
      it_neq_def)

text \<open>
  C10, with the capacity below \<open>SIZE_MAX\<close>: on a tree just constructed, in any store and
  with any capacity for which \<open>maxNodeElems + 1\<close> does not wrap, \<open>begin()\<close> equals \<open>end()\<close>,
  \<open>cbegin()\<close> equals \<open>cend()\<close>, and the dump writes nothing to the stream.
\<close>

theorem empty_tree_begin_is_end:
  assumes "cap < 2 ^ 64 - 1"
  shows "case btree_new h cap of (h', t) \<Rightarrow>
     (\<exists>b e. btree_begin (Suc n) h' t = Inr b \<and> btree_end (Suc n) h' t = Inr e \<and> it_eq b e) \<and>
     (\<exists>b e. btree_cbegin (Suc n) h' t = Inr b \<and> btree_cend (Suc n) h' t = Inr e \<and> cit_eq b e) \<and>
     dump (Suc (Suc n)) h' t os = Inr os"
proof -
  have "Suc cap < 2 ^ 64" using assms by simp
  then have slots: "wrap_size_t (Suc cap) = Suc cap" by (rule wrap_size_t_id)
  show ?thesis
    by (simp add: slots btree_new_def make_Node_def btree_begin_def btree_end_def btree_cbegin_def
        btree_cend_def cNodeBegin_def cNodeEnd_def constE_def rootNode_def node_def at_def
        position_Nil it_eq_def cit_eq_def cit_neq_def as_const_def dump_def nth_append Let_def)
qed

theorem empty_tree_begin_is_end_witness:
  "case btree_new (empty_store :: int store) 40 of (h', t) \<Rightarrow>
     (\<exists>b e. btree_begin (Suc 0) h' t = Inr b \<and> btree_end (Suc 0) h' t = Inr e \<and> it_eq b e) \<and>
     (\<exists>b e. btree_cbegin (Suc 0) h' t = Inr b \<and> btree_cend (Suc 0) h' t = Inr e \<and> cit_eq b e) \<and>
     dump (Suc (Suc 0)) h' t [] = Inr []"
  using empty_tree_begin_is_end [where cap = 40 and h = "empty_store :: int store" and n = 0
      and os = "[]"]
  by simp

text \<open>
  The claim as it is written, for every tree on which nothing was inserted, fails at the
  largest capacity: with \<open>maxNodeElems = SIZE_MAX\<close> the constructor computes \<open>size + 1 = 0\<close>
  child slots, and \<open>begin()\<close>, \<open>end()\<close>, \<open>cbegin()\<close>, \<open>cend()\<close> and the dump all read a child
  slot of the empty vector.
\<close>

theorem empty_tree_max_capacity_out_of_range:
  "btree_begin (Suc 0) (fst (btree_new (empty_store :: int store) 18446744073709551615))
       (snd (btree_new (empty_store :: int store) 18446744073709551615)) = Inl OutOfRange \<and>
   btree_end (Suc 0) (fst (btree_new (empty_store :: int store) 18446744073709551615))
       (snd (btree_new (empty_store :: int store) 18446744073709551615)) = Inl OutOfRange \<and>
   btree_cbegin (Suc 0) (fst (btree_new (empty_store :: int store) 18446744073709551615))
       (snd (btree_new (empty_store :: int store) 18446744073709551615)) = Inl OutOfRange \<and>
   btree_cend (Suc 0) (fst (btree_new (empty_store :: int store) 18446744073709551615))
       (snd (btree_new (empty_store :: int store) 18446744073709551615)) = Inl OutOfRange \<and>
   dump (Suc (Suc 0)) (fst (btree_new (empty_store :: int store) 18446744073709551615))
       (snd (btree_new (empty_store :: int store) 18446744073709551615)) [] = Inl OutOfRange"
  by (simp add: eval_defs Let_def)

end
